theory Spec2Isabelle
  imports Complex_Main "HOL-Library.Word" "HOL-Library.Signed_Division"
begin

section \<open>utop: a shallow embedding of the sampler, the GPU probe and the key loop\<close>

text \<open>
  The model follows \<^verbatim>\<open>src/src/main.c\<close>; \<^verbatim>\<open>src/utop.c\<close> is the earlier version of the
  same program and has the same \<^verbatim>\<open>human_bytes\<close> thresholds, \<^verbatim>\<open>compare_procs\<close>, CPU and
  per-process arithmetic in \<^verbatim>\<open>sample\<close>, \<^verbatim>\<open>read_key\<close> and key dispatch.

  What the program reads from the kernel is an argument of the model: the bytes of a file
  are not parsed again here, a reader receives what \<^verbatim>\<open>fopen\<close>, \<^verbatim>\<open>fgets\<close> and
  \<^verbatim>\<open>sscanf\<close> deliver (\<open>None\<close> where the call fails), and the control flow around these
  calls is that of the source. \<^verbatim>\<open>unsigned long long\<close> is \<open>64 word\<close>, so sums and
  differences wrap as in C. \<^verbatim>\<open>malloc\<close> and \<^verbatim>\<open>realloc\<close> are taken to succeed.
\<close>

type_synonym u64 = "64 word"

subsection \<open>C doubles\<close>

text \<open>
  A finite \<^verbatim>\<open>double\<close> is the rational number it denotes. Every arithmetic operation of the
  source is the exact operation followed by \<open>rnd\<close>, rounding to the nearest number with a
  53-bit significand, ties to the even significand (IEEE 754 binary64 in its default
  rounding mode). The exponent range is not modelled: the magnitudes that occur here
  (counters below \<open>2^64\<close>, times 100 or 1000, divided by counters) stay far inside it.
  \<open>bitlen n\<close> is the number of binary digits of \<open>n\<close>, \<open>ilog2 x\<close> the integer part of the
  binary logarithm of a positive \<open>x\<close>, \<open>rne\<close> rounds to the nearest integer, ties to even.
\<close>

type_synonym double = real

fun bitlen :: "nat \<Rightarrow> nat" where
  "bitlen n = (if n = 0 then 0 else Suc (bitlen (n div 2)))"

declare bitlen.simps [simp del]

definition rne :: "real \<Rightarrow> int" where
  "rne x = (let f = \<lfloor>x\<rfloor>; r = x - of_int f in
     if r < 1/2 then f else if 1/2 < r then f + 1 else if even f then f else f + 1)"

definition ilog2 :: "real \<Rightarrow> int" where
  "ilog2 x = (if 1 \<le> x then int (bitlen (nat \<lfloor>x\<rfloor>)) - 1
              else - int (bitlen (nat \<lceil>1 / x\<rceil> - 1)))"

definition rnd :: "real \<Rightarrow> double" where
  "rnd x = (if x = 0 then 0 else
     let e = ilog2 \<bar>x\<bar> - 52 in sgn x * of_int (rne (\<bar>x\<bar> / 2 powi e)) * 2 powi e)"

text \<open>Conversions \<^verbatim>\<open>(double)u\<close> of an \<^verbatim>\<open>unsigned long long\<close> and of a \<^verbatim>\<open>long\<close>.\<close>

definition d_of_u64 :: "u64 \<Rightarrow> double" where
  "d_of_u64 w = rnd (real (unat w))"

definition d_of_long :: "int \<Rightarrow> double" where
  "d_of_long i = rnd (of_int i)"

definition d_add :: "double \<Rightarrow> double \<Rightarrow> double" where
  "d_add a b = rnd (a + b)"

definition d_mul :: "double \<Rightarrow> double \<Rightarrow> double" where
  "d_mul a b = rnd (a * b)"

text \<open>
  Every division of the source that the model reaches has a divisor the code has checked
  to be positive; \<open>x / 0\<close> is \<open>0\<close> in HOL and is never relied on.
\<close>

definition d_div :: "double \<Rightarrow> double \<Rightarrow> double" where
  "d_div a b = rnd (a / b)"

subsection \<open>printf conversions\<close>

text \<open>
  \<^verbatim>\<open>%llu\<close> and \<^verbatim>\<open>%d\<close> print decimal digits. \<^verbatim>\<open>%.Nf\<close> of a non-negative double prints
  its exact value rounded to \<open>N\<close> decimals, ties to even (glibc rounds the exact binary
  value in the current rounding mode).
\<close>

definition digit_char :: "nat \<Rightarrow> char" where
  "digit_char d = ''0123456789'' ! d"

fun fmt_llu :: "nat \<Rightarrow> string" where
  "fmt_llu n = (if n < 10 then [digit_char n] else fmt_llu (n div 10) @ [digit_char (n mod 10)])"

declare fmt_llu.simps [simp del]

definition fmt_d :: "int \<Rightarrow> string" where
  "fmt_d i = (if i < 0 then CHR ''-'' # fmt_llu (nat (- i)) else fmt_llu (nat i))"

fun pad0 :: "nat \<Rightarrow> string \<Rightarrow> string" where
  "pad0 w s = replicate (w - length s) CHR ''0'' @ s"

definition fmt_f :: "nat \<Rightarrow> double \<Rightarrow> string" where
  "fmt_f prec x = (let n = nat (rne (x * 10 ^ prec)) in
     fmt_llu (n div 10 ^ prec) @ ''.'' @ pad0 prec (fmt_llu (n mod 10 ^ prec)))"

subsection \<open>human_bytes\<close>

text \<open>
  \<^verbatim>\<open>human_bytes\<close> writes into one of eight rotating static buffers and returns it; the
  model returns the text written. The longest text, for \<open>2^64 - 1\<close>, has 18 characters
  and fits the 32 bytes of a buffer.
\<close>

definition human_bytes :: "u64 \<Rightarrow> string" where
  "human_bytes bytes = (let v = d_of_u64 bytes in
     if v \<ge> 1024 * 1024 * 1024 then fmt_f 2 (d_div v (1024 * 1024 * 1024)) @ '' GiB''
     else if v \<ge> 1024 * 1024 then fmt_f 1 (d_div v (1024 * 1024)) @ '' MiB''
     else if v \<ge> 1024 then fmt_f 1 (d_div v 1024) @ '' KiB''
     else fmt_llu (unat bytes) @ '' B'')"

subsection \<open>Strings of the C library\<close>

text \<open>
  \<^verbatim>\<open>strstr h n\<close> is read as a truth value (the C function returns a pointer or
  \<^verbatim>\<open>NULL\<close>); \<^verbatim>\<open>strcasestr\<close> compares without case; \<^verbatim>\<open>atoi\<close> is only called on a name
  whose first character is a digit and reads the leading digits. The classifications are
  those of the C locale, which the program never changes.
\<close>

definition isdigit :: "char \<Rightarrow> bool" where
  "isdigit c = (c \<in> set ''0123456789'')"

definition isprint :: "char \<Rightarrow> bool" where
  "isprint c = (32 \<le> (of_char c :: nat) \<and> (of_char c :: nat) \<le> 126)"

definition tolower :: "char \<Rightarrow> char" where
  "tolower c = (case map_of (zip ''ABCDEFGHIJKLMNOPQRSTUVWXYZ'' ''abcdefghijklmnopqrstuvwxyz'') c of
     None \<Rightarrow> c | Some l \<Rightarrow> l)"

fun is_prefix :: "string \<Rightarrow> string \<Rightarrow> bool" where
  "is_prefix [] h = True"
| "is_prefix (x # xs) [] = False"
| "is_prefix (x # xs) (y # ys) = (x = y \<and> is_prefix xs ys)"

fun strstr :: "string \<Rightarrow> string \<Rightarrow> bool" where
  "strstr [] n = (n = [])"
| "strstr (h # hs) n = (is_prefix n (h # hs) \<or> strstr hs n)"

definition strcasestr :: "string \<Rightarrow> string \<Rightarrow> bool" where
  "strcasestr h n = strstr (map tolower h) (map tolower n)"

definition digit_val :: "char \<Rightarrow> int" where
  "digit_val c = int (of_char c) - 48"

definition atoi :: "string \<Rightarrow> int" where
  "atoi s = foldl (\<lambda>a c. a * 10 + digit_val c) 0 (takeWhile isdigit s)"

fun first_some :: "'a option list \<Rightarrow> 'a option" where
  "first_some [] = None"
| "first_some (None # xs) = first_some xs"
| "first_some (Some v # xs) = Some v"

subsection \<open>Data structures\<close>

record CpuTimes =
  user :: u64
  nice :: u64
  system :: u64
  idle :: u64
  iowait :: u64
  irq :: u64
  softirq :: u64
  steal :: u64

record MemorySnapshot =
  used_bytes :: u64
  total_bytes :: u64
  swap_used_bytes :: u64
  swap_total_bytes :: u64
  cma_used_bytes :: u64
  cma_total_bytes :: u64

record GpuSnapshot =
  gpu_name :: string
  usage :: double
  mem_used :: u64
  mem_total :: u64
  temp :: double
  has_usage :: bool
  has_mem :: bool
  has_temp :: bool

record ProcessInfo =
  pid :: int
  name :: string
  cpu_percent :: double
  mem_bytes :: u64
  threads :: int

datatype SortMode = SORT_CPU | SORT_MEM

record NetworkSnapshot =
  net_iface :: string
  rx_rate :: double
  tx_rate :: double

record NetStats =
  iface :: string
  rx :: u64
  tx :: u64

record timeval =
  tv_sec :: int
  tv_usec :: int

text \<open>
  The sampler state. The arrays \<^verbatim>\<open>prev_ticks\<close>, \<^verbatim>\<open>prev_net\<close> and \<^verbatim>\<open>v3d_stats\<close> with
  their counts are lists: the count is the length (\<^verbatim>\<open>v3d_stats\<close> has room for 16).
\<close>

record PidTicks =
  ticks :: u64
  tick_pid :: int

record V3dStats =
  queue :: string
  last_ts :: u64
  last_rt :: u64

record Sampler =
  prev_cpu :: CpuTimes
  prev_ticks :: "PidTicks list"
  prev_net :: "NetStats list"
  last_sample :: timeval
  page_size :: int
  v3d_stats :: "V3dStats list"

definition zero_cpu :: CpuTimes where
  "zero_cpu = \<lparr>user = 0, nice = 0, system = 0, idle = 0, iowait = 0, irq = 0, softirq = 0,
     steal = 0\<rparr>"

text \<open>\<^verbatim>\<open>sampler_create\<close>: \<^verbatim>\<open>calloc\<close> zeroes the state; page size and time are read.\<close>

definition sampler_create :: "int \<Rightarrow> timeval \<Rightarrow> Sampler" where
  "sampler_create pagesz t = \<lparr>prev_cpu = zero_cpu, prev_ticks = [], prev_net = [],
     last_sample = t, page_size = pagesz, v3d_stats = []\<rparr>"

subsection \<open>Readers of /proc\<close>

text \<open>
  \<^verbatim>\<open>read_cpu_times\<close>: the argument is \<open>None\<close> when \<^verbatim>\<open>/proc/stat\<close> cannot be opened or
  read, otherwise the numbers \<^verbatim>\<open>sscanf\<close> converts from the first line, in order (none
  when the line does not start with \<^verbatim>\<open>cpu\<close>); fields that are not converted stay 0.
\<close>

definition read_cpu_times :: "u64 list option \<Rightarrow> CpuTimes" where
  "read_cpu_times f = (case f of None \<Rightarrow> zero_cpu
     | Some vs \<Rightarrow> (let g = (\<lambda>i. if i < length vs then vs ! i else 0) in
         \<lparr>user = g 0, nice = g 1, system = g 2, idle = g 3, iowait = g 4, irq = g 5,
          softirq = g 6, steal = g 7\<rparr>))"

text \<open>
  \<^verbatim>\<open>read_memory\<close>: a line of \<^verbatim>\<open>/proc/meminfo\<close> is its text and the number \<^verbatim>\<open>sscanf\<close>
  converts behind the key (\<open>None\<close> when it converts nothing, which leaves the variable
  as it was).
\<close>

record meminfo_vars =
  mi_total :: u64
  mi_avail :: u64
  mi_s_total :: u64
  mi_s_free :: u64
  mi_cma_total :: u64
  mi_cma_free :: u64

definition starts_with :: "string \<Rightarrow> string \<Rightarrow> bool" where
  "starts_with line k = (take (length k) line = k)"

definition meminfo_line :: "meminfo_vars \<Rightarrow> string \<times> u64 option \<Rightarrow> meminfo_vars" where
  "meminfo_line m l = (case snd l of None \<Rightarrow> m | Some v \<Rightarrow>
     if starts_with (fst l) ''MemTotal:'' then m\<lparr>mi_total := v\<rparr>
     else if starts_with (fst l) ''MemAvailable:'' then m\<lparr>mi_avail := v\<rparr>
     else if starts_with (fst l) ''SwapTotal:'' then m\<lparr>mi_s_total := v\<rparr>
     else if starts_with (fst l) ''SwapFree:'' then m\<lparr>mi_s_free := v\<rparr>
     else if starts_with (fst l) ''CmaTotal:'' then m\<lparr>mi_cma_total := v\<rparr>
     else if starts_with (fst l) ''CmaFree:'' then m\<lparr>mi_cma_free := v\<rparr>
     else m)"

definition zero_mem :: MemorySnapshot where
  "zero_mem = \<lparr>used_bytes = 0, total_bytes = 0, swap_used_bytes = 0, swap_total_bytes = 0,
     cma_used_bytes = 0, cma_total_bytes = 0\<rparr>"

definition read_memory :: "(string \<times> u64 option) list option \<Rightarrow> MemorySnapshot" where
  "read_memory f = (case f of None \<Rightarrow> zero_mem
     | Some ls \<Rightarrow>
        (let m = foldl meminfo_line \<lparr>mi_total = 0, mi_avail = 0, mi_s_total = 0, mi_s_free = 0,
                   mi_cma_total = 0, mi_cma_free = 0\<rparr> ls in
         \<lparr>used_bytes = (mi_total m - mi_avail m) * 1024,
          total_bytes = mi_total m * 1024,
          swap_used_bytes = (mi_s_total m - mi_s_free m) * 1024,
          swap_total_bytes = mi_s_total m * 1024,
          cma_used_bytes = (mi_cma_total m - mi_cma_free m) * 1024,
          cma_total_bytes = mi_cma_total m * 1024\<rparr>))"

text \<open>\<^verbatim>\<open>read_cpu_count\<close>: the lines of \<^verbatim>\<open>/proc/stat\<close> as \<^verbatim>\<open>fgets\<close> returns them.\<close>

definition read_cpu_count :: "string list option \<Rightarrow> int" where
  "read_cpu_count f = (case f of None \<Rightarrow> 1
     | Some ls \<Rightarrow>
        (let count = int (length (filter (\<lambda>l. starts_with l ''cpu'' \<and> 3 < length l \<and> isdigit (l ! 3)) ls))
         in if count > 0 then count else 1))"

subsection \<open>read_gpu\<close>

text \<open>
  What one probe finds under \<^verbatim>\<open>/sys\<close> and from \<^verbatim>\<open>nvidia-smi\<close>. For a file read with
  \<^verbatim>\<open>fopen\<close> and \<^verbatim>\<open>fscanf\<close>, \<open>None\<close> says that it cannot be opened, \<open>Some None\<close> that
  nothing is converted, \<open>Some (Some v)\<close> that \<open>v\<close> is converted. A line of
  \<^verbatim>\<open>gpu_stats\<close> is \<open>Some\<close> row when \<^verbatim>\<open>sscanf\<close> converts its three values; the header line
  that the code skips is not part of the list.
\<close>

record nv_token =
  tok_double :: double
  tok_ull :: u64

record v3d_row =
  q_name :: string
  ts :: u64
  rt :: u64

record hwmon_entry =
  h_name :: string
  h_temp1 :: "double option option"

record drm_card =
  card_name :: string
  usage_files :: "double option list"
  gpu_stats :: "v3d_row option list option"
  debug_gpu_stats :: "v3d_row option list option"
  vendor :: "string option option"
  uevent :: "string list option"
  hwmon :: "hwmon_entry list option"
  vram_used :: "u64 option option"
  vram_size :: "u64 option option"

record devfreq_entry =
  df_name :: string
  df_load :: "double option option"

text \<open>
  \<open>nvidia\<close> is \<open>None\<close> when \<^verbatim>\<open>popen\<close> fails or \<^verbatim>\<open>fgets\<close> reads no line, otherwise the
  tokens \<^verbatim>\<open>strtok_r\<close> yields, each with its \<^verbatim>\<open>atof\<close> and \<^verbatim>\<open>atoll\<close> reading.
  \<open>usage_files\<close> lists, for the four usage files in the order of the source, the double
  read (\<open>None\<close> when the file is missing or holds no number). \<open>df_load\<close> is the
  \<^verbatim>\<open>atof\<close> of the text before \<^verbatim>\<open>@\<close>. \<open>drm\<close> and the two devfreq directories are \<open>None\<close>
  when \<^verbatim>\<open>opendir\<close> fails.
\<close>

record gpu_world =
  gpu_now :: timeval
  nvidia :: "nv_token list option"
  drm :: "drm_card list option"
  thermal_zone0 :: "double option option"
  kgsl_busy_percentage :: "double option option"
  kgsl_gpubusy :: "(u64 \<times> u64) option option"
  devfreq_class :: "devfreq_entry list option"
  devfreq_soc :: "devfreq_entry list option"

text \<open>The two \<^verbatim>\<open>static\<close> variables of \<^verbatim>\<open>read_gpu\<close>.\<close>

record gpu_static =
  cached_gpu :: GpuSnapshot
  last_gpu_read :: timeval

definition gpu_init :: GpuSnapshot where
  "gpu_init = \<lparr>gpu_name = ''GPU'', usage = 0, mem_used = 0, mem_total = 0, temp = - 1000,
     has_usage = False, has_mem = False, has_temp = False\<rparr>"

definition gpu_static_init :: gpu_static where
  "gpu_static_init = \<lparr>cached_gpu = gpu_init, last_gpu_read = \<lparr>tv_sec = 0, tv_usec = 0\<rparr>\<rparr>"

text \<open>
  The millisecond difference of two times as the source computes it; \<open>sdiv\<close> is C's
  division, which truncates towards zero.
\<close>

definition ms_diff :: "timeval \<Rightarrow> timeval \<Rightarrow> int" where
  "ms_diff t t0 = (tv_sec t - tv_sec t0) * 1000 + (tv_usec t - tv_usec t0) sdiv 1000"

fun nvidia_fields :: "nat \<Rightarrow> GpuSnapshot \<Rightarrow> nv_token list \<Rightarrow> GpuSnapshot" where
  "nvidia_fields field g [] = g"
| "nvidia_fields field g (t # toks) =
     nvidia_fields (field + 1)
       (if field = 0 then g\<lparr>usage := tok_double t, has_usage := True\<rparr>
        else if field = 1 then g\<lparr>mem_used := tok_ull t * 1024 * 1024, has_mem := True\<rparr>
        else if field = 2 then g\<lparr>mem_total := tok_ull t * 1024 * 1024\<rparr>
        else if field = 3 then g\<lparr>temp := tok_double t, has_temp := True\<rparr>
        else g) toks"

definition read_tz0 :: "double option option \<Rightarrow> GpuSnapshot \<Rightarrow> GpuSnapshot" where
  "read_tz0 tz g = (case tz of Some (Some t) \<Rightarrow> g\<lparr>temp := d_div t 1000, has_temp := True\<rparr>
     | _ \<Rightarrow> g)"

text \<open>The V3D path: the loop over the lines of \<^verbatim>\<open>gpu_stats\<close>, on the queue table.\<close>

fun find_queue :: "V3dStats list \<Rightarrow> string \<Rightarrow> nat option" where
  "find_queue [] q = None"
| "find_queue (e # es) q = (if queue e = q then Some 0 else map_option Suc (find_queue es q))"

definition queue_usage :: "V3dStats \<Rightarrow> v3d_row \<Rightarrow> double" where
  "queue_usage e r =
     d_div (d_mul (d_of_u64 (rt r - last_rt e)) 100) (d_of_u64 (ts r - last_ts e))"

definition v3d_line ::
  "V3dStats list \<times> GpuSnapshot \<Rightarrow> v3d_row option \<Rightarrow> V3dStats list \<times> GpuSnapshot" where
  "v3d_line st l = (case l of None \<Rightarrow> st
     | Some r \<Rightarrow>
        (case find_queue (fst st) (q_name r) of
           None \<Rightarrow>
             if length (fst st) < 16
             then (fst st @ [\<lparr>queue = q_name r, last_ts = ts r, last_rt = rt r\<rparr>], snd st)
             else st
         | Some idx \<Rightarrow>
             (let e = fst st ! idx;
                  g = (if ts r > last_ts e
                       then (if queue_usage e r > usage (snd st)
                             then (snd st)\<lparr>usage := queue_usage e r\<rparr>
                             else snd st)\<lparr>has_usage := True\<rparr>
                       else snd st)
              in ((fst st)[idx := e\<lparr>last_ts := ts r, last_rt := rt r\<rparr>], g))))"

definition v3d_lines ::
  "V3dStats list \<Rightarrow> GpuSnapshot \<Rightarrow> v3d_row option list \<Rightarrow> V3dStats list \<times> GpuSnapshot" where
  "v3d_lines tbl g ls = foldl v3d_line (tbl, g) ls"

definition is_card :: "string \<Rightarrow> bool" where
  "is_card n = (starts_with n ''card'' \<and> CHR ''-'' \<notin> set n)"

definition stats_file :: "drm_card \<Rightarrow> v3d_row option list option" where
  "stats_file c = (case gpu_stats c of Some ls \<Rightarrow> Some ls
     | None \<Rightarrow> if 4 < length (card_name c) \<and> isdigit (card_name c ! 4)
               then debug_gpu_stats c else None)"

definition vendor_name :: "drm_card \<Rightarrow> GpuSnapshot \<Rightarrow> GpuSnapshot" where
  "vendor_name c g = (case vendor c of
       Some None \<Rightarrow> g
     | Some (Some v) \<Rightarrow>
         if strstr v ''0x1002'' then g\<lparr>gpu_name := ''AMD GPU''\<rparr>
         else if strstr v ''0x8086'' then g\<lparr>gpu_name := ''Intel GPU''\<rparr>
         else if strstr v ''0x10de'' then g\<lparr>gpu_name := ''NVIDIA GPU''\<rparr>
         else if strstr v ''0x14e4'' then g\<lparr>gpu_name := ''Broadcom GPU''\<rparr>
         else g
     | None \<Rightarrow>
         (case uevent c of None \<Rightarrow> g
          | Some ls \<Rightarrow>
              if list_ex (\<lambda>l. strstr l ''DRIVER=v3d'' \<or> strstr l ''DRIVER=vc4'') ls
              then g\<lparr>gpu_name := ''VideoCore GPU''\<rparr> else g))"

definition hwmon_temp :: "drm_card \<Rightarrow> GpuSnapshot \<Rightarrow> GpuSnapshot" where
  "hwmon_temp c g = (case hwmon c of None \<Rightarrow> g
     | Some es \<Rightarrow>
         (case find (\<lambda>e. starts_with (h_name e) ''hwmon'' \<and> h_temp1 e \<noteq> None) es of
            None \<Rightarrow> g
          | Some e \<Rightarrow>
              (case h_temp1 e of Some (Some t) \<Rightarrow> g\<lparr>temp := d_div t 1000, has_temp := True\<rparr>
               | _ \<Rightarrow> g)))"

definition vram :: "drm_card \<Rightarrow> GpuSnapshot \<Rightarrow> GpuSnapshot" where
  "vram c g = (if has_mem g then g else
     (let g1 = (case vram_used c of Some (Some v) \<Rightarrow> g\<lparr>mem_used := v, has_mem := True\<rparr>
                | _ \<Rightarrow> g)
      in (case vram_size c of Some (Some v) \<Rightarrow> g1\<lparr>mem_total := v\<rparr> | _ \<Rightarrow> g1)))"

definition videocore_vram :: "MemorySnapshot \<Rightarrow> GpuSnapshot \<Rightarrow> GpuSnapshot" where
  "videocore_vram mem g =
     (if (gpu_name g = ''Broadcom GPU'' \<or> gpu_name g = ''VideoCore GPU'' \<or> gpu_name g = ''GPU'')
         \<and> cma_total_bytes mem > 0
      then g\<lparr>mem_used := cma_used_bytes mem, mem_total := cma_total_bytes mem, has_mem := True,
             gpu_name := (if gpu_name g = ''GPU'' then ''VideoCore GPU'' else gpu_name g)\<rparr>
      else g)"

text \<open>The body of the loop over \<^verbatim>\<open>/sys/class/drm\<close> for one entry that is a card.\<close>

definition drm_card_step ::
  "V3dStats list \<Rightarrow> GpuSnapshot \<Rightarrow> MemorySnapshot \<Rightarrow> double option option \<Rightarrow> drm_card
    \<Rightarrow> V3dStats list \<times> GpuSnapshot" where
  "drm_card_step tbl g mem tz c =
     (let (tbl1, g1) =
            (case first_some (take 4 (usage_files c)) of
               Some u \<Rightarrow> (tbl, g\<lparr>usage := u, has_usage := True\<rparr>)
             | None \<Rightarrow> (case stats_file c of None \<Rightarrow> (tbl, g)
                        | Some ls \<Rightarrow> v3d_lines tbl g ls));
          g2 = hwmon_temp c (vendor_name c g1);
          g3 = (if has_temp g2 then g2 else read_tz0 tz g2)
      in (tbl1, videocore_vram mem (vram c g3)))"

fun drm_cards ::
  "V3dStats list \<Rightarrow> GpuSnapshot \<Rightarrow> MemorySnapshot \<Rightarrow> double option option \<Rightarrow> drm_card list
    \<Rightarrow> V3dStats list \<times> GpuSnapshot" where
  "drm_cards tbl g mem tz [] = (tbl, g)"
| "drm_cards tbl g mem tz (c # cs) =
     (if is_card (card_name c)
      then (let r = drm_card_step tbl g mem tz c in
            if has_usage (snd r) then r else drm_cards (fst r) (snd r) mem tz cs)
      else drm_cards tbl g mem tz cs)"

definition adreno :: "gpu_world \<Rightarrow> double option" where
  "adreno w = (case kgsl_busy_percentage w of
       Some r \<Rightarrow> Some (case r of None \<Rightarrow> 0 | Some u \<Rightarrow> u)
     | None \<Rightarrow>
         (case kgsl_gpubusy w of
            Some (Some (busy, tot)) \<Rightarrow>
              if tot > 0 \<and> d_div (d_mul (d_of_u64 busy) 100) (d_of_u64 tot) > 0
              then Some (d_div (d_mul (d_of_u64 busy) 100) (d_of_u64 tot)) else None
          | _ \<Rightarrow> None))"

definition devfreq_match :: "devfreq_entry \<Rightarrow> bool" where
  "devfreq_match e = ((strstr (df_name e) ''v3d'' \<or> strstr (df_name e) ''gpu''
       \<or> strstr (df_name e) ''mali'' \<or> strstr (df_name e) ''soc:gpu'')
     \<and> (case df_load e of Some (Some v) \<Rightarrow> True | _ \<Rightarrow> False))"

definition devfreq_entries :: "gpu_world \<Rightarrow> devfreq_entry list" where
  "devfreq_entries w = (case devfreq_class w of None \<Rightarrow> [] | Some es \<Rightarrow> es)
     @ (case devfreq_soc w of None \<Rightarrow> [] | Some es \<Rightarrow> es)"

definition devfreq_name :: "string \<Rightarrow> GpuSnapshot \<Rightarrow> GpuSnapshot" where
  "devfreq_name n g =
     (if strstr n ''v3d'' \<or> strstr n ''soc:gpu'' then g\<lparr>gpu_name := ''VideoCore GPU''\<rparr>
      else if strstr n ''mali'' then g\<lparr>gpu_name := ''Mali GPU''\<rparr>
      else g)"

definition soc_fallback :: "MemorySnapshot \<Rightarrow> double option option \<Rightarrow> GpuSnapshot \<Rightarrow> GpuSnapshot" where
  "soc_fallback mem tz g =
     (if \<not> has_usage g \<and> \<not> has_mem g \<and> cma_total_bytes mem > 0
      then (let g1 = g\<lparr>gpu_name := ''VideoCore GPU'', mem_used := cma_used_bytes mem,
                       mem_total := cma_total_bytes mem, has_mem := True\<rparr>
            in if has_temp g1 then g1 else read_tz0 tz g1)
      else g)"

text \<open>
  One probe: the cascade below the cache test, in the order of the source. Every path of
  the source stores the snapshot it returns in \<^verbatim>\<open>cached_gpu\<close>; \<open>read_gpu\<close> does that
  once, for all of them.
\<close>

definition gpu_probe ::
  "V3dStats list \<Rightarrow> MemorySnapshot \<Rightarrow> gpu_world \<Rightarrow> V3dStats list \<times> GpuSnapshot" where
  "gpu_probe tbl mem w =
     (let gn = (case nvidia w of None \<Rightarrow> gpu_init | Some toks \<Rightarrow> nvidia_fields 0 gpu_init toks) in
      if has_usage gn then (tbl, gn\<lparr>gpu_name := ''NVIDIA GPU''\<rparr>)
      else
        (let r = (case drm w of None \<Rightarrow> (tbl, gpu_init)
                  | Some cs \<Rightarrow> drm_cards tbl gpu_init mem (thermal_zone0 w) cs) in
         if has_usage (snd r) then r
         else
           (case adreno w of
              Some u \<Rightarrow>
                (fst r, read_tz0 (thermal_zone0 w)
                          ((snd r)\<lparr>gpu_name := ''Adreno GPU'', usage := u, has_usage := True\<rparr>))
            | None \<Rightarrow>
                (case find devfreq_match (devfreq_entries w) of
                   Some e \<Rightarrow>
                     (let g1 = devfreq_name (df_name e)
                                 ((snd r)\<lparr>usage := (case df_load e of Some (Some v) \<Rightarrow> v | _ \<Rightarrow> 0),
                                          has_usage := True\<rparr>)
                      in (fst r, if has_temp g1 then g1 else read_tz0 (thermal_zone0 w) g1))
                 | None \<Rightarrow> (fst r, soc_fallback mem (thermal_zone0 w) (snd r))))))"

definition read_gpu ::
  "Sampler \<Rightarrow> gpu_static \<Rightarrow> MemorySnapshot \<Rightarrow> gpu_world \<Rightarrow> Sampler \<times> gpu_static \<times> GpuSnapshot" where
  "read_gpu s st mem w =
     (if ms_diff (gpu_now w) (last_gpu_read st) < 800 \<and> tv_sec (last_gpu_read st) \<noteq> 0
      then (s, st, cached_gpu st)
      else (let r = gpu_probe (v3d_stats s) mem w in
            (s\<lparr>v3d_stats := fst r\<rparr>,
             \<lparr>cached_gpu = snd r, last_gpu_read = gpu_now w\<rparr>,
             snd r)))"

subsection \<open>compare_procs and qsort_r\<close>

definition compare_procs :: "SortMode \<Rightarrow> ProcessInfo \<Rightarrow> ProcessInfo \<Rightarrow> int" where
  "compare_procs mode pa pb = (case mode of
       SORT_CPU \<Rightarrow>
         if cpu_percent pb > cpu_percent pa then 1
         else if cpu_percent pb < cpu_percent pa then - 1
         else if mem_bytes pb > mem_bytes pa then 1 else - 1
     | SORT_MEM \<Rightarrow>
         if mem_bytes pb > mem_bytes pa then 1
         else if mem_bytes pb < mem_bytes pa then - 1
         else if cpu_percent pb > cpu_percent pa then 1 else - 1)"

text \<open>
  \<^verbatim>\<open>qsort_r\<close> belongs to the C library, not to this repository. It is modelled as the
  merge sort of glibc (\<^verbatim>\<open>msort_with_tmp\<close>): the array is cut at \<open>n div 2\<close>, both halves are
  sorted, and the merge takes from the left half while the comparator does not return a
  positive number.
\<close>

fun merge_cmp :: "('a \<Rightarrow> 'a \<Rightarrow> int) \<Rightarrow> 'a list \<Rightarrow> 'a list \<Rightarrow> 'a list" where
  "merge_cmp c [] ys = ys"
| "merge_cmp c (x # xs) [] = x # xs"
| "merge_cmp c (x # xs) (y # ys) =
     (if c x y \<le> 0 then x # merge_cmp c xs (y # ys) else y # merge_cmp c (x # xs) ys)"

fun qsort_r :: "('a \<Rightarrow> 'a \<Rightarrow> int) \<Rightarrow> 'a list \<Rightarrow> 'a list" where
  "qsort_r c xs = (if length xs \<le> 1 then xs
     else merge_cmp c (qsort_r c (take (length xs div 2) xs))
                      (qsort_r c (drop (length xs div 2) xs)))"

declare qsort_r.simps [simp del]

subsection \<open>read_network\<close>

text \<open>
  A line of \<^verbatim>\<open>/proc/net/dev\<close> behind the two header lines is \<open>Some\<close> of its interface
  name and its first and ninth number when it has a colon and \<^verbatim>\<open>sscanf\<close> converts the
  three, else \<open>None\<close>. The file is \<open>None\<close> when it cannot be opened.
\<close>

fun find_prev_net :: "NetStats list \<Rightarrow> string \<Rightarrow> NetStats option" where
  "find_prev_net [] n = None"
| "find_prev_net (e # es) n = (if iface e = n then Some e else find_prev_net es n)"

definition iface_rates :: "NetStats list \<Rightarrow> double \<Rightarrow> NetStats \<Rightarrow> double \<times> double" where
  "iface_rates prev elapsed r =
     (let prev_rx = (case find_prev_net prev (iface r) of None \<Rightarrow> rx r | Some p \<Rightarrow> rx p);
          prev_tx = (case find_prev_net prev (iface r) of None \<Rightarrow> tx r | Some p \<Rightarrow> tx p)
      in (d_div (d_of_u64 (if rx r \<ge> prev_rx then rx r - prev_rx else 0)) elapsed,
          d_div (d_of_u64 (if tx r \<ge> prev_tx then tx r - prev_tx else 0)) elapsed))"

record net_loop =
  cur_net :: "NetStats list"
  best :: NetworkSnapshot
  best_total :: u64

definition net_line :: "NetStats list \<Rightarrow> double \<Rightarrow> net_loop \<Rightarrow> NetStats option \<Rightarrow> net_loop" where
  "net_line prev elapsed st l = (case l of None \<Rightarrow> st
     | Some r \<Rightarrow>
         if iface r = ''lo'' then st
         else (let st1 = st\<lparr>cur_net := cur_net st @ [r]\<rparr> in
               if rx r + tx r > best_total st
               then st1\<lparr>best := \<lparr>net_iface = iface r,
                                  rx_rate = fst (iface_rates prev elapsed r),
                                  tx_rate = snd (iface_rates prev elapsed r)\<rparr>,
                        best_total := rx r + tx r\<rparr>
               else st1))"

definition net_none :: NetworkSnapshot where
  "net_none = \<lparr>net_iface = ''-'', rx_rate = 0, tx_rate = 0\<rparr>"

definition read_network ::
  "Sampler \<Rightarrow> double \<Rightarrow> NetStats option list option \<Rightarrow> Sampler \<times> NetworkSnapshot" where
  "read_network s elapsed f = (case f of None \<Rightarrow> (s, net_none)
     | Some ls \<Rightarrow>
         (let st = foldl (net_line (prev_net s) elapsed)
                     \<lparr>cur_net = [], best = net_none, best_total = 0\<rparr> ls
          in (s\<lparr>prev_net := cur_net st\<rparr>, best st)))"

subsection \<open>sample\<close>

text \<open>
  An entry of \<^verbatim>\<open>/proc\<close>: its name and what \<^verbatim>\<open>sample\<close> gets from its \<^verbatim>\<open>stat\<close> file.
  \<open>stat\<close> is \<open>None\<close> when the file cannot be opened or read or has no parenthesis;
  \<open>comm\<close> is the text between the first \<^verbatim>\<open>(\<close> and the last \<^verbatim>\<open>)\<close> (the kernel writes the
  \<^verbatim>\<open>(\<close> first); \<open>stat_fields\<close> holds utime, stime, num_threads and rss when \<^verbatim>\<open>sscanf\<close>
  converts all four.
\<close>

record proc_stat =
  comm :: string
  stat_fields :: "(u64 \<times> u64 \<times> int \<times> u64) option"

record proc_entry =
  d_name :: string
  stat :: "proc_stat option"

text \<open>What one call of \<^verbatim>\<open>sample\<close> reads, in the order of its reads.\<close>

record world =
  now :: timeval
  proc_stat_cpu :: "u64 list option"
  meminfo :: "(string \<times> u64 option) list option"
  net_dev :: "NetStats option list option"
  gpu :: gpu_world
  proc_stat_lines :: "string list option"
  proc_dir :: "proc_entry list option"

text \<open>
  The out-parameters. \<open>out_procs\<close> is \<open>None\<close> when \<^verbatim>\<open>sample\<close> returns without writing
  \<^verbatim>\<open>*out_procs\<close> and \<^verbatim>\<open>*out_count\<close>; \<^verbatim>\<open>*out_count\<close> is the length of the list.
\<close>

record SampleOut =
  out_procs :: "ProcessInfo list option"
  out_cpu :: double
  out_mem :: MemorySnapshot
  out_net :: NetworkSnapshot
  out_gpu :: GpuSnapshot
  out_cpus :: int

definition elapsed_of :: "timeval \<Rightarrow> timeval \<Rightarrow> double" where
  "elapsed_of t t0 =
     (let e = d_add (d_of_long (tv_sec t - tv_sec t0))
                    (d_div (d_of_long (tv_usec t - tv_usec t0)) 1000000)
      in if e < rnd (1 / 1000) then rnd (1 / 1000) else e)"

definition cpu_total :: "CpuTimes \<Rightarrow> u64" where
  "cpu_total c = user c + nice c + system c + idle c + iowait c + irq c + softirq c + steal c"

definition total_delta :: "CpuTimes \<Rightarrow> CpuTimes \<Rightarrow> u64" where
  "total_delta prev cur = cpu_total cur - cpu_total prev"

definition idle_delta :: "CpuTimes \<Rightarrow> CpuTimes \<Rightarrow> u64" where
  "idle_delta prev cur = idle cur + iowait cur - (idle prev + iowait prev)"

definition overall_cpu :: "CpuTimes \<Rightarrow> CpuTimes \<Rightarrow> double" where
  "overall_cpu prev cur =
     (if total_delta prev cur > 0
      then d_div (d_mul (d_of_u64 (total_delta prev cur - idle_delta prev cur)) 100)
                 (d_of_u64 (total_delta prev cur))
      else 0)"

fun find_prev_ticks :: "PidTicks list \<Rightarrow> int \<Rightarrow> u64" where
  "find_prev_ticks [] p = 0"
| "find_prev_ticks (e # es) p = (if tick_pid e = p then ticks e else find_prev_ticks es p)"

definition proc_cpu :: "u64 \<Rightarrow> u64 \<Rightarrow> u64 \<Rightarrow> double" where
  "proc_cpu tdelta total_ticks prev_t =
     (if tdelta > 0 then d_div (d_mul (d_of_u64 (total_ticks - prev_t)) 100) (d_of_u64 tdelta)
      else 0)"

text \<open>The body of the loop over \<^verbatim>\<open>/proc\<close>; every \<^verbatim>\<open>continue\<close> leaves the lists as they are.\<close>

definition proc_step ::
  "Sampler \<Rightarrow> string \<Rightarrow> u64 \<Rightarrow> ProcessInfo list \<times> PidTicks list \<Rightarrow> proc_entry
    \<Rightarrow> ProcessInfo list \<times> PidTicks list" where
  "proc_step s flt tdelta acc e = (case d_name e of [] \<Rightarrow> acc
     | c # cs \<Rightarrow>
         if \<not> isdigit c then acc
         else (case stat e of None \<Rightarrow> acc
           | Some st \<Rightarrow>
               if flt \<noteq> [] \<and> \<not> strcasestr (comm st) flt
                  \<and> \<not> strstr (fmt_d (atoi (d_name e))) flt
               then acc
               else (case stat_fields st of None \<Rightarrow> acc
                 | Some (utime, stime, thr, rss) \<Rightarrow>
                     (fst acc @ [\<lparr>pid = atoi (d_name e), name = comm st,
                         cpu_percent = proc_cpu tdelta (utime + stime)
                                         (find_prev_ticks (prev_ticks s) (atoi (d_name e))),
                         mem_bytes = rss * word_of_int (page_size s), threads = thr\<rparr>],
                      snd acc @ [\<lparr>ticks = utime + stime, tick_pid = atoi (d_name e)\<rparr>]))))"

definition sample ::
  "Sampler \<Rightarrow> gpu_static \<Rightarrow> SortMode \<Rightarrow> string \<Rightarrow> world \<Rightarrow> Sampler \<times> gpu_static \<times> SampleOut" where
  "sample s gst mode flt w =
     (let elapsed = elapsed_of (now w) (last_sample s);
          s1 = s\<lparr>last_sample := now w\<rparr>;
          cur_cpu = read_cpu_times (proc_stat_cpu w);
          tdelta = total_delta (prev_cpu s1) cur_cpu;
          cpu = overall_cpu (prev_cpu s1) cur_cpu;
          mem = read_memory (meminfo w);
          (s2, net) = read_network s1 elapsed (net_dev w);
          (s3, gst', g) = read_gpu s2 gst mem (gpu w);
          cpus = read_cpu_count (proc_stat_lines w)
      in case proc_dir w of
           None \<Rightarrow>
             (s3, gst', \<lparr>out_procs = None, out_cpu = cpu, out_mem = mem, out_net = net,
                         out_gpu = g, out_cpus = cpus\<rparr>)
         | Some entries \<Rightarrow>
             (let r = foldl (proc_step s3 flt tdelta) ([], []) entries in
              (s3\<lparr>prev_ticks := snd r, prev_cpu := cur_cpu\<rparr>, gst',
               \<lparr>out_procs = Some (qsort_r (compare_procs mode) (fst r)), out_cpu = cpu,
                out_mem = mem, out_net = net, out_gpu = g, out_cpus = cpus\<rparr>)))"

subsection \<open>The terminal, read_key and the key loop of main\<close>

text \<open>
  The terminal: \<open>lflag\<close> is the \<^verbatim>\<open>c_lflag\<close> word of the line discipline in force,
  \<open>g_original_termios\<close> the one saved by \<^verbatim>\<open>init_terminal\<close>, \<open>screen_out\<close> what has been
  printed. \<^verbatim>\<open>ECHO\<close>, \<^verbatim>\<open>ICANON\<close> and \<^verbatim>\<open>ISIG\<close> have their Linux values.
\<close>

unbundle bit_operations_syntax

record terminal =
  lflag :: "32 word"
  g_original_termios :: "32 word"
  g_termios_active :: bool
  screen_out :: string

definition ESC :: char where
  "ESC = CHR 0x1B"

definition init_terminal :: "terminal \<Rightarrow> terminal" where
  "init_terminal t = t\<lparr>g_original_termios := lflag t,
     lflag := lflag t AND NOT (0x8 OR 0x2 OR 0x1),
     g_termios_active := True,
     screen_out := screen_out t @ ESC # ''[?1049h'' @ ESC # ''[2J'' @ ESC # ''[H'' @ ESC # ''[?25l''\<rparr>"

definition restore_terminal :: "terminal \<Rightarrow> terminal" where
  "restore_terminal t = (if \<not> g_termios_active t then t
     else t\<lparr>lflag := g_original_termios t,
            screen_out := screen_out t @ ESC # ''[?1049l'' @ ESC # ''[?25h'' @ ESC # ''[0m'',
            g_termios_active := False\<rparr>)"

datatype KeyType = K_NONE | K_QUIT | K_UP | K_DOWN | K_LEFT | K_RIGHT
  | K_BACKSPACE | K_ENTER | K_ESC | K_CHAR

record Key =
  type :: KeyType
  ch :: char

definition key :: "KeyType \<Rightarrow> Key" where
  "key k = \<lparr>type = k, ch = CHR 0x00\<rparr>"

text \<open>
  \<^verbatim>\<open>read_key\<close>: the argument is what \<^verbatim>\<open>read\<close> delivers into the 16-byte buffer, the
  empty list when it returns 0 or fails.
\<close>

definition read_key :: "char list \<Rightarrow> Key" where
  "read_key buf = (case buf of [] \<Rightarrow> key K_NONE
     | b0 # bs \<Rightarrow>
         if b0 = CHR 0x03 then key K_QUIT
         else if bs = [] then
           (if b0 = CHR 0x1B then key K_ESC
            else if b0 = CHR 0x7F \<or> b0 = CHR 0x08 then key K_BACKSPACE
            else if b0 = CHR 0x0A \<or> b0 = CHR 0x0D then key K_ENTER
            else if isprint b0 then \<lparr>type = K_CHAR, ch = b0\<rparr>
            else key K_NONE)
         else if 3 \<le> length buf \<and> b0 = CHR 0x1B \<and> buf ! 1 = CHR ''[''
         then
           (if buf ! 2 = CHR ''A'' then key K_UP
            else if buf ! 2 = CHR ''B'' then key K_DOWN
            else if buf ! 2 = CHR ''C'' then key K_RIGHT
            else if buf ! 2 = CHR ''D'' then key K_LEFT
            else key K_NONE)
         else key K_NONE)"

text \<open>
  The variables of \<^verbatim>\<open>main\<close> that the key loop reads and writes. \<open>filter_buf\<close> is the
  text of \<^verbatim>\<open>char filter[64]\<close> up to its terminating zero.
\<close>

record ui_state =
  sort_mode :: SortMode
  filter_buf :: string
  is_search :: bool
  selection :: int
  needs_sample :: bool
  needs_render :: bool

datatype step = Running ui_state | Exit int terminal

text \<open>The body of \<^verbatim>\<open>while ((k = read_key()).type != K_NONE)\<close> for one key.\<close>

definition handle_key :: "ui_state \<Rightarrow> terminal \<Rightarrow> Key \<Rightarrow> step" where
  "handle_key u t k =
     (if type k = K_QUIT then Exit 0 (restore_terminal t)
      else if is_search u then
        (if type k = K_ESC \<or> type k = K_ENTER
         then Running (u\<lparr>is_search := False, needs_render := True\<rparr>)
         else if type k = K_BACKSPACE then
           (if length (filter_buf u) > 0
            then Running (u\<lparr>filter_buf := butlast (filter_buf u), selection := 0,
                             needs_sample := True\<rparr>)
            else Running (u\<lparr>is_search := False, needs_render := True\<rparr>))
         else if type k = K_CHAR then
           (if length (filter_buf u) < 63
            then Running (u\<lparr>filter_buf := filter_buf u @ [ch k], selection := 0,
                             needs_sample := True\<rparr>)
            else Running u)
         else Running u)
      else
        (if type k = K_UP
         then Running (u\<lparr>selection := (if selection u > 0 then selection u - 1 else selection u),
                          needs_render := True\<rparr>)
         else if type k = K_DOWN
         then Running (u\<lparr>selection := selection u + 1, needs_render := True\<rparr>)
         else if type k = K_LEFT then Running (u\<lparr>sort_mode := SORT_CPU, needs_sample := True\<rparr>)
         else if type k = K_RIGHT then Running (u\<lparr>sort_mode := SORT_MEM, needs_sample := True\<rparr>)
         else if type k = K_ESC then
           (if filter_buf u \<noteq> []
            then Running (u\<lparr>filter_buf := [], selection := 0, needs_sample := True\<rparr>)
            else Running u)
         else if type k = K_CHAR then
           (if ch k = CHR ''q'' then Exit 0 (restore_terminal t)
            else if ch k = CHR ''j''
            then Running (u\<lparr>selection := selection u + 1, needs_render := True\<rparr>)
            else if ch k = CHR ''k''
            then Running (u\<lparr>selection := (if selection u > 0 then selection u - 1 else selection u),
                             needs_render := True\<rparr>)
            else if ch k = CHR ''h'' then Running (u\<lparr>sort_mode := SORT_CPU, needs_sample := True\<rparr>)
            else if ch k = CHR ''l'' then Running (u\<lparr>sort_mode := SORT_MEM, needs_sample := True\<rparr>)
            else if ch k = CHR ''/''
            then Running (u\<lparr>is_search := True, filter_buf := [], needs_render := True\<rparr>)
            else Running u)
         else Running u))"

text \<open>
  The loop itself: \<open>reads\<close> lists what the successive calls of \<^verbatim>\<open>read\<close> deliver; the loop
  stops at the first read that \<^verbatim>\<open>read_key\<close> classifies as \<^verbatim>\<open>K_NONE\<close>, and a read past
  the end of the list finds no input.
\<close>

fun key_loop :: "ui_state \<Rightarrow> terminal \<Rightarrow> char list list \<Rightarrow> step" where
  "key_loop u t [] = Running u"
| "key_loop u t (buf # reads) =
     (if type (read_key buf) = K_NONE then Running u
      else (case handle_key u t (read_key buf) of
              Exit c t' \<Rightarrow> Exit c t'
            | Running u' \<Rightarrow> key_loop u' t reads))"

subsection \<open>Concrete states for the examples\<close>

text \<open>A terminal after \<^verbatim>\<open>init_terminal\<close>, and the key loop in SEARCH mode with a filter.\<close>

definition term_raw :: terminal where
  "term_raw = init_terminal \<lparr>lflag = 0x8A3B, g_original_termios = 0,
     g_termios_active = False, screen_out = []\<rparr>"

definition ui_searching :: ui_state where
  "ui_searching = \<lparr>sort_mode = SORT_CPU, filter_buf = ''fire'', is_search = True,
     selection = 3, needs_sample = False, needs_render = False\<rparr>"

text \<open>
  A fresh sampler, the static state of \<^verbatim>\<open>read_gpu\<close> before its first call, and a host
  where no file can be read; the examples change single fields of it.
\<close>

definition sampler0 :: Sampler where
  "sampler0 = sampler_create 4096 \<lparr>tv_sec = 1000, tv_usec = 0\<rparr>"

definition gpu_world_none :: gpu_world where
  "gpu_world_none = \<lparr>gpu_now = \<lparr>tv_sec = 1000, tv_usec = 500000\<rparr>, nvidia = None, drm = None,
     thermal_zone0 = None, kgsl_busy_percentage = None, kgsl_gpubusy = None,
     devfreq_class = None, devfreq_soc = None\<rparr>"

definition world_none :: world where
  "world_none = \<lparr>now = \<lparr>tv_sec = 1000, tv_usec = 500000\<rparr>, proc_stat_cpu = None,
     meminfo = None, net_dev = None, gpu = gpu_world_none, proc_stat_lines = None,
     proc_dir = None\<rparr>"

text \<open>Two processes with the same ticks and the same resident set, pid 2 listed first.\<close>

definition world_two_procs :: world where
  "world_two_procs = world_none\<lparr>
     proc_stat_cpu := Some [100, 0, 100, 200, 0, 0, 0, 0],
     proc_dir := Some
       [\<lparr>d_name = ''2'', stat = Some \<lparr>comm = ''sh'', stat_fields = Some (60, 40, 1, 100)\<rparr>\<rparr>,
        \<lparr>d_name = ''1'', stat = Some \<lparr>comm = ''init'', stat_fields = Some (60, 40, 1, 100)\<rparr>\<rparr>]\<rparr>"

text \<open>Three processes that differ in ticks and resident set.\<close>

definition world_three_procs :: world where
  "world_three_procs = world_none\<lparr>
     proc_stat_cpu := Some [100, 0, 100, 200, 0, 0, 0, 0],
     proc_dir := Some
       [\<lparr>d_name = ''10'', stat = Some \<lparr>comm = ''cron'', stat_fields = Some (30, 10, 1, 300)\<rparr>\<rparr>,
        \<lparr>d_name = ''11'', stat = Some \<lparr>comm = ''sshd'', stat_fields = Some (60, 40, 2, 100)\<rparr>\<rparr>,
        \<lparr>d_name = ''12'', stat = Some \<lparr>comm = ''Xorg'', stat_fields = Some (50, 50, 4, 300)\<rparr>\<rparr>]\<rparr>"

text \<open>
  A sampler whose previous CPU snapshot is \<^verbatim>\<open>cpu 100 0 100 800 0 0 0 0\<close>, and four later
  first lines of \<^verbatim>\<open>/proc/stat\<close>: all counters advanced; \<open>user\<close> fallen back from 100 to
  50 while the others advanced; all counters restarted from small values; and, for a
  fresh sampler, a first line with a very large \<open>user\<close> counter, and one whose counters
  sum to more than \<open>2^64\<close>.
\<close>

definition sampler_prev :: Sampler where
  "sampler_prev = sampler0\<lparr>prev_cpu := \<lparr>user = 100, nice = 0, system = 100, idle = 800,
     iowait = 0, irq = 0, softirq = 0, steal = 0\<rparr>\<rparr>"

definition world_cpu_later :: world where
  "world_cpu_later = world_none\<lparr>proc_stat_cpu := Some [200, 0, 200, 1000, 0, 0, 0, 0]\<rparr>"

definition world_user_reset :: world where
  "world_user_reset = world_none\<lparr>proc_stat_cpu := Some [50, 0, 200, 1000, 0, 0, 0, 0]\<rparr>"

definition world_all_reset :: world where
  "world_all_reset = world_none\<lparr>proc_stat_cpu := Some [10, 0, 10, 80, 0, 0, 0, 0]\<rparr>"

definition world_huge_user :: world where
  "world_huge_user = world_none\<lparr>proc_stat_cpu := Some [360287970189643, 0, 0, 0, 0, 0, 0, 0]\<rparr>"

definition world_sum_wraps :: world where
  "world_sum_wraps = world_none\<lparr>proc_stat_cpu :=
     Some [9223372036854775808, 0, 0, 9223372036854775809, 0, 0, 0, 0]\<rparr>"

text \<open>
  One process, pid 123, with utime 1000 and stime 200, while the CPU totals advance by
  400; and a sampler that has seen this pid with 1000 ticks.
\<close>

definition world_proc_123 :: world where
  "world_proc_123 = world_cpu_later\<lparr>proc_dir := Some
     [\<lparr>d_name = ''123'', stat = Some \<lparr>comm = ''firefox'', stat_fields = Some (1000, 200, 8, 5000)\<rparr>\<rparr>]\<rparr>"

definition sampler_seen_123 :: Sampler where
  "sampler_seen_123 = sampler_prev\<lparr>prev_ticks := [\<lparr>ticks = 1000, tick_pid = 123\<rparr>]\<rparr>"

subsection \<open>A predicate for the statements about the process list\<close>

text \<open>
  \<open>from_entry s td es p\<close>: the process \<open>p\<close> was built by the loop of \<^verbatim>\<open>sample\<close> from an
  entry of \<open>es\<close> whose \<^verbatim>\<open>stat\<close> file was read and converted, with the CPU percentage the
  loop computes from the entry's ticks and the previous table of \<open>s\<close>.
\<close>

definition from_entry :: "Sampler \<Rightarrow> u64 \<Rightarrow> proc_entry list \<Rightarrow> ProcessInfo \<Rightarrow> bool" where
  "from_entry s td es p = (\<exists>e st ut stm thr rss. e \<in> set es \<and> stat e = Some st
      \<and> stat_fields st = Some (ut, stm, thr, rss) \<and> pid p = atoi (d_name e)
      \<and> cpu_percent p = proc_cpu td (ut + stm) (find_prev_ticks (prev_ticks s) (pid p)))"

subsection \<open>The rows read_network accepts\<close>

text \<open>
  \<open>net_rows ls\<close>: the converted lines of \<^verbatim>\<open>/proc/net/dev\<close> that are not the interface
  \<^verbatim>\<open>lo\<close>, in their order; \<open>net_snap\<close>: the snapshot the loop stores for such a row.
\<close>

fun net_rows :: "NetStats option list \<Rightarrow> NetStats list" where
  "net_rows [] = []"
| "net_rows (None # ls) = net_rows ls"
| "net_rows (Some r # ls) = (if iface r = ''lo'' then net_rows ls else r # net_rows ls)"

definition net_snap :: "NetStats list \<Rightarrow> double \<Rightarrow> NetStats \<Rightarrow> NetworkSnapshot" where
  "net_snap prev elapsed r = \<lparr>net_iface = iface r,
     rx_rate = fst (iface_rates prev elapsed r), tx_rate = snd (iface_rates prev elapsed r)\<rparr>"

text \<open>
  A sampler that has seen \<^verbatim>\<open>eth0\<close> and \<^verbatim>\<open>lo\<close>, the next reading of \<^verbatim>\<open>/proc/net/dev\<close>
  with a new interface \<^verbatim>\<open>wlan0\<close>, and a reading with one interface that has carried no
  traffic yet.
\<close>

definition sampler_net :: Sampler where
  "sampler_net = sampler0\<lparr>prev_net :=
     [\<lparr>iface = ''eth0'', rx = 1000000, tx = 500000\<rparr>]\<rparr>"

definition net_dev_later :: "NetStats option list" where
  "net_dev_later =
     [Some \<lparr>iface = ''lo'', rx = 900000000, tx = 900000000\<rparr>,
      None,
      Some \<lparr>iface = ''eth0'', rx = 2024000, tx = 400000\<rparr>,
      Some \<lparr>iface = ''wlan0'', rx = 70000, tx = 30000\<rparr>]"

definition net_dev_idle :: "NetStats option list" where
  "net_dev_idle =
     [Some \<lparr>iface = ''lo'', rx = 5000, tx = 5000\<rparr>,
      Some \<lparr>iface = ''eth0'', rx = 0, tx = 0\<rparr>]"

text \<open>
  The invariant of the loop of \<^verbatim>\<open>read_network\<close> after the rows \<open>seen\<close>: the new table
  holds them, no row has a greater total than \<open>best_total\<close>, and \<open>best\<close> is the placeholder
  while \<open>best_total\<close> is 0 and else the snapshot of a row with that total.
\<close>

definition net_inv :: "NetStats list \<Rightarrow> double \<Rightarrow> NetStats list \<Rightarrow> net_loop \<Rightarrow> bool" where
  "net_inv prev e seen st = (cur_net st = seen
     \<and> (\<forall>r\<in>set seen. rx r + tx r \<le> best_total st)
     \<and> (if best_total st = 0 then best st = net_none
         else \<exists>r\<in>set seen. best st = net_snap prev e r \<and> best_total st = rx r + tx r))"

text \<open>
  Three calls of \<^verbatim>\<open>read_gpu\<close> on a host without any GPU interface where
  \<^verbatim>\<open>nvidia-smi\<close> starts to answer after the first call: at 10.0 s (a probe), at 10.7 s
  and at 10.9 s.
\<close>

definition gw_first :: gpu_world where
  "gw_first = gpu_world_none\<lparr>gpu_now := \<lparr>tv_sec = 10, tv_usec = 0\<rparr>\<rparr>"

definition gw_second :: gpu_world where
  "gw_second = gpu_world_none\<lparr>gpu_now := \<lparr>tv_sec = 10, tv_usec = 700000\<rparr>,
     nvidia := Some [\<lparr>tok_double = 35, tok_ull = 35\<rparr>, \<lparr>tok_double = 1024, tok_ull = 1024\<rparr>,
                     \<lparr>tok_double = 8192, tok_ull = 8192\<rparr>, \<lparr>tok_double = 61, tok_ull = 61\<rparr>]\<rparr>"

definition gw_third :: gpu_world where
  "gw_third = gw_second\<lparr>gpu_now := \<lparr>tv_sec = 10, tv_usec = 900000\<rparr>\<rparr>"

definition gpu_call1 :: "Sampler \<times> gpu_static \<times> GpuSnapshot" where
  "gpu_call1 = read_gpu sampler0 gpu_static_init zero_mem gw_first"

definition gpu_call2 :: "Sampler \<times> gpu_static \<times> GpuSnapshot" where
  "gpu_call2 = read_gpu (fst gpu_call1) (fst (snd gpu_call1)) zero_mem gw_second"

definition gpu_call3 :: "Sampler \<times> gpu_static \<times> GpuSnapshot" where
  "gpu_call3 = read_gpu (fst gpu_call2) (fst (snd gpu_call2)) zero_mem gw_third"

subsection \<open>The queues retained over the probes of gpu_stats\<close>

text \<open>
  \<open>v3d_rows ls\<close>: the converted lines, in the order of the file. What the claim says of the
  queue table and of the utilisations, written without the loop, from a table \<open>tbl\<close> and the
  rows \<open>rs\<close> read since: \<open>first_seen\<close> keeps the first occurrence of every name;
  \<open>tracked tbl rs\<close> are the first 16 distinct queue names, those of the table first;
  \<open>lookup_queue\<close> is the entry that the search of the source finds for a name;
  \<open>held tbl rs n\<close> is the entry retained for the name \<open>n\<close>: none when \<open>n\<close> is not tracked,
  otherwise the pair of the latest row named \<open>n\<close>, or the entry of the table when no row
  names it. \<open>util_at tbl rs k\<close> is the utilisation of the row \<open>k\<close>: against the entry held
  just before that row, when there is one with an older timestamp. \<open>v3d_utils_from j\<close>
  collects them from the row \<open>j\<close> onwards.
\<close>

fun v3d_rows :: "v3d_row option list \<Rightarrow> v3d_row list" where
  "v3d_rows [] = []"
| "v3d_rows (None # ls) = v3d_rows ls"
| "v3d_rows (Some r # ls) = r # v3d_rows ls"

definition first_seen :: "string list \<Rightarrow> string list" where
  "first_seen ns = rev (remdups (rev ns))"

definition tracked :: "V3dStats list \<Rightarrow> v3d_row list \<Rightarrow> string list" where
  "tracked tbl rs = take 16 (first_seen (map queue tbl @ map q_name rs))"

definition lookup_queue :: "V3dStats list \<Rightarrow> string \<Rightarrow> V3dStats option" where
  "lookup_queue tbl n = map_option (\<lambda>i. tbl ! i) (find_queue tbl n)"

definition held :: "V3dStats list \<Rightarrow> v3d_row list \<Rightarrow> string \<Rightarrow> V3dStats option" where
  "held tbl rs n =
     (if n \<in> set (tracked tbl rs)
      then (case find (\<lambda>r. q_name r = n) (rev rs) of
              Some r \<Rightarrow> Some \<lparr>queue = n, last_ts = ts r, last_rt = rt r\<rparr>
            | None \<Rightarrow> lookup_queue tbl n)
      else None)"

definition util_at :: "V3dStats list \<Rightarrow> v3d_row list \<Rightarrow> nat \<Rightarrow> double option" where
  "util_at tbl rs k =
     (case held tbl (take k rs) (q_name (rs ! k)) of
        None \<Rightarrow> None
      | Some e \<Rightarrow> if last_ts e < ts (rs ! k) then Some (queue_usage e (rs ! k)) else None)"

definition v3d_utils_from :: "nat \<Rightarrow> V3dStats list \<Rightarrow> v3d_row list \<Rightarrow> double list" where
  "v3d_utils_from j tbl rs = List.map_filter (util_at tbl rs) [j..<length rs]"

text \<open>
  A V3D card as on a Raspberry Pi: no usage file, a \<^verbatim>\<open>gpu_stats\<close> file with the given
  lines, the driver named in \<^verbatim>\<open>uevent\<close>. Two probes one second apart with the queues
  \<^verbatim>\<open>bin\<close> and \<^verbatim>\<open>render\<close>, the first one on the empty table of a new sampler; and two
  probes of a file with seventeen queues, of which only the last one was busy between
  the probes.
\<close>

definition v3d_card :: "v3d_row option list \<Rightarrow> drm_card" where
  "v3d_card ls = \<lparr>card_name = ''card0'', usage_files = [None, None, None, None],
     gpu_stats = Some ls, debug_gpu_stats = None, vendor = None,
     uevent = Some [''DRIVER=v3d''], hwmon = None, vram_used = None, vram_size = None\<rparr>"

definition v3d_lines1 :: "v3d_row option list" where
  "v3d_lines1 = [Some \<lparr>q_name = ''bin'', ts = 1000000000, rt = 500000000\<rparr>,
                 Some \<lparr>q_name = ''render'', ts = 1000000000, rt = 100000000\<rparr>]"

definition v3d_lines2 :: "v3d_row option list" where
  "v3d_lines2 = [Some \<lparr>q_name = ''bin'', ts = 2000000000, rt = 1000000000\<rparr>,
                 Some \<lparr>q_name = ''render'', ts = 2000000000, rt = 350000000\<rparr>]"

definition q17_lines1 :: "v3d_row option list" where
  "q17_lines1 = map (\<lambda>i. Some \<lparr>q_name = ''q'' @ fmt_llu i, ts = 1000000000, rt = 500000000\<rparr>)
     [1..<18]"

definition q17_lines2 :: "v3d_row option list" where
  "q17_lines2 = map (\<lambda>i. Some \<lparr>q_name = ''q'' @ fmt_llu i, ts = 2000000000,
                                  rt = (if i = 17 then 1000000000 else 500000000)\<rparr>)
     [1..<18]"

definition q17_call1 :: "Sampler \<times> gpu_static \<times> GpuSnapshot" where
  "q17_call1 = read_gpu sampler0 gpu_static_init zero_mem
     (gpu_world_none\<lparr>gpu_now := \<lparr>tv_sec = 100, tv_usec = 0\<rparr>, drm := Some [v3d_card q17_lines1]\<rparr>)"

definition q17_call2 :: "Sampler \<times> gpu_static \<times> GpuSnapshot" where
  "q17_call2 = read_gpu (fst q17_call1) (fst (snd q17_call1)) zero_mem
     (gpu_world_none\<lparr>gpu_now := \<lparr>tv_sec = 101, tv_usec = 0\<rparr>, drm := Some [v3d_card q17_lines2]\<rparr>)"

section \<open>Properties\<close>

subsection \<open>Rounding to double\<close>

lemma bitlen_bounds: "0 < n \<Longrightarrow> 2 ^ (bitlen n - 1) \<le> n \<and> n < 2 ^ bitlen n"
proof (induction n rule: bitlen.induct)
  case (1 n)
  show ?case
  proof (cases "n div 2 = 0")
    case True
    with 1(2) have "n = 1" by auto
    then show ?thesis by (simp add: bitlen.simps)
  next
    case False
    then have pos: "0 < n div 2" by simp
    have n0: "n \<noteq> 0" using 1(2) by simp
    from 1(1)[OF n0 pos] have lo: "2 ^ (bitlen (n div 2) - 1) \<le> n div 2"
      and hi: "n div 2 < 2 ^ bitlen (n div 2)" by auto
    have bl: "bitlen n = Suc (bitlen (n div 2))" using n0 by (simp add: bitlen.simps)
    have bpos: "0 < bitlen (n div 2)" using pos by (simp add: bitlen.simps)
    then have "(2::nat) ^ bitlen (n div 2) = 2 * 2 ^ (bitlen (n div 2) - 1)"
      by (cases "bitlen (n div 2)") auto
    with lo have "(2::nat) ^ bitlen (n div 2) \<le> 2 * (n div 2)" by simp
    also have "\<dots> \<le> n" by simp
    finally have A: "2 ^ (bitlen n - 1) \<le> n" by (simp add: bl)
    have "n < 2 * (n div 2 + 1)" by arith
    also have "\<dots> \<le> 2 * 2 ^ bitlen (n div 2)" using hi by simp
    finally have B: "n < 2 ^ bitlen n" by (simp add: bl)
    from A B show ?thesis by simp
  qed
qed

lemma real_Suc_le_power: "n < 2 ^ k \<Longrightarrow> real n + 1 \<le> 2 ^ k"
proof -
  assume "n < 2 ^ k"
  then have "Suc n \<le> 2 ^ k" by simp
  then have "real (Suc n) \<le> real (2 ^ k)" by (rule of_nat_mono)
  then show ?thesis by simp
qed

lemma ilog2_bounds:
  assumes "0 < x"
  shows "2 powi ilog2 x \<le> x \<and> x < 2 powi (ilog2 x + 1)"
proof (cases "1 \<le> x")
  case True
  define n where "n = nat \<lfloor>x\<rfloor>"
  have npos: "0 < n" using True by (simp add: n_def)
  have nx: "real n \<le> x" "x < real n + 1" using True by (auto simp: n_def)
  from bitlen_bounds[OF npos] have lo: "2 ^ (bitlen n - 1) \<le> n" and hi: "n < 2 ^ bitlen n"
    by auto
  have bpos: "0 < bitlen n" using npos by (simp add: bitlen.simps)
  have il: "ilog2 x = int (bitlen n - 1)" using True bpos by (simp add: ilog2_def n_def)
  have "(2::real) ^ (bitlen n - 1) \<le> real n" using lo by simp
  moreover have "2 powi ilog2 x = (2::real) ^ (bitlen n - 1)" by (simp add: il)
  ultimately have A: "2 powi ilog2 x \<le> x" using nx by linarith
  have "x < 2 ^ bitlen n" using real_Suc_le_power[OF hi] nx by linarith
  moreover have "ilog2 x + 1 = int (bitlen n)" using il bpos by simp
  then have "2 powi (ilog2 x + 1) = (2::real) ^ bitlen n" by simp
  ultimately have B: "x < 2 powi (ilog2 x + 1)" by linarith
  from A B show ?thesis by simp
next
  case False
  then have x1: "x < 1" by simp
  define y where "y = 1 / x"
  have y1: "1 < y" using assms x1 by (simp add: y_def)
  define m where "m = nat \<lceil>y\<rceil> - 1"
  have cy: "2 \<le> \<lceil>y\<rceil>" using y1 by linarith
  have mpos: "0 < m" unfolding m_def using cy by linarith
  have "int m = \<lceil>y\<rceil> - 1" unfolding m_def using cy by linarith
  then have mc: "real m = of_int \<lceil>y\<rceil> - 1"
    by (metis of_int_1 of_int_diff of_int_of_nat_eq)
  have my: "real m < y" "y \<le> real m + 1"
    using ceiling_correct[of y] by (simp_all add: mc)
  from bitlen_bounds[OF mpos] have lo: "2 ^ (bitlen m - 1) \<le> m" and hi: "m < 2 ^ bitlen m"
    by auto
  have bpos: "0 < bitlen m" using mpos by (simp add: bitlen.simps)
  have il: "ilog2 x = - int (bitlen m)" using False by (simp add: ilog2_def m_def y_def)
  have yle: "y \<le> 2 ^ bitlen m" using real_Suc_le_power[OF hi] my by linarith
  have "(2::real) ^ (bitlen m - 1) \<le> real m" using lo by simp
  then have ygt: "2 ^ (bitlen m - 1) < y" using my by linarith
  have xy: "x = 1 / y" using assms by (simp add: y_def)
  have A: "2 powi ilog2 x \<le> x"
  proof -
    have "1 / 2 ^ bitlen m \<le> 1 / y" using yle y1 by (simp add: frac_le)
    moreover have "2 powi ilog2 x = 1 / (2::real) ^ bitlen m"
      by (simp add: il power_int_minus field_simps)
    ultimately show ?thesis using xy by linarith
  qed
  have B: "x < 2 powi (ilog2 x + 1)"
  proof -
    have "1 / y < 1 / 2 ^ (bitlen m - 1)" using ygt by (simp add: frac_less2)
    moreover have "ilog2 x + 1 = - int (bitlen m - 1)" using il bpos by simp
    then have "2 powi (ilog2 x + 1) = 1 / (2::real) ^ (bitlen m - 1)"
      by (simp add: power_int_minus field_simps)
    ultimately show ?thesis using xy by linarith
  qed
  from A B show ?thesis by simp
qed

lemma two_powi_less_imp: "(2::real) powi i < 2 powi j \<Longrightarrow> i < j"
  by (metis not_le power_int_increasing one_le_numeral)

lemma ilog2_unique:
  assumes "0 < x" "2 powi i \<le> x" "x < 2 powi (i + 1)"
  shows "ilog2 x = i"
proof -
  from ilog2_bounds[OF assms(1)]
  have lo: "2 powi ilog2 x \<le> x" and hi: "x < 2 powi (ilog2 x + 1)" by auto
  have "(2::real) powi ilog2 x < 2 powi (i + 1)" using lo assms(3) by linarith
  then have A: "ilog2 x < i + 1" by (rule two_powi_less_imp)
  have "(2::real) powi i < 2 powi (ilog2 x + 1)" using hi assms(2) by linarith
  then have B: "i < ilog2 x + 1" by (rule two_powi_less_imp)
  from A B show ?thesis by simp
qed

lemma ilog2_mono:
  assumes "0 < x" "x \<le> y"
  shows "ilog2 x \<le> ilog2 y"
proof -
  have ypos: "0 < y" using assms by simp
  from ilog2_bounds[OF assms(1)] have lo: "2 powi ilog2 x \<le> x" by simp
  from ilog2_bounds[OF ypos] have hi: "y < 2 powi (ilog2 y + 1)" by simp
  have "(2::real) powi ilog2 x < 2 powi (ilog2 y + 1)" using lo hi assms(2) by linarith
  then have "ilog2 x < ilog2 y + 1" by (rule two_powi_less_imp)
  then show ?thesis by simp
qed

lemma rne_of_int: "rne (of_int n) = n"
  by (simp add: rne_def)

lemma rne_floor_le: "\<lfloor>x\<rfloor> \<le> rne x"
  by (simp add: rne_def Let_def)

lemma rne_le_floor1: "rne x \<le> \<lfloor>x\<rfloor> + 1"
  by (simp add: rne_def Let_def)

lemma rne_mono: "x \<le> y \<Longrightarrow> rne x \<le> rne y"
proof (cases "\<lfloor>x\<rfloor> < \<lfloor>y\<rfloor>")
  case True
  have "rne x \<le> \<lfloor>x\<rfloor> + 1" by (rule rne_le_floor1)
  also have "\<dots> \<le> \<lfloor>y\<rfloor>" using True by simp
  also have "\<dots> \<le> rne y" by (rule rne_floor_le)
  finally show ?thesis .
next
  case False
  assume xy: "x \<le> y"
  then have "\<lfloor>x\<rfloor> \<le> \<lfloor>y\<rfloor>" by (rule floor_mono)
  with False have eq: "\<lfloor>x\<rfloor> = \<lfloor>y\<rfloor>" by simp
  have "x - of_int \<lfloor>y\<rfloor> \<le> y - of_int \<lfloor>y\<rfloor>" using xy by simp
  then show ?thesis unfolding rne_def Let_def eq by auto
qed

lemma rnd_pos_eq:
  "0 < x \<Longrightarrow> rnd x = of_int (rne (x / 2 powi (ilog2 x - 52))) * 2 powi (ilog2 x - 52)"
  by (simp add: rnd_def Let_def)

lemma scaled_bounds:
  assumes "0 < x"
  shows "2 ^ 52 \<le> x / 2 powi (ilog2 x - 52) \<and> x / 2 powi (ilog2 x - 52) < 2 ^ 53"
proof -
  from ilog2_bounds[OF assms]
  have lo: "2 powi ilog2 x \<le> x" and hi: "x < 2 powi (ilog2 x + 1)" by auto
  have p: "(0::real) < 2 powi (ilog2 x - 52)" by simp
  have e1: "(2::real) powi ilog2 x = 2 ^ 52 * 2 powi (ilog2 x - 52)"
    by (simp add: power_int_diff)
  have e2: "(2::real) powi (ilog2 x + 1) = 2 ^ 53 * 2 powi (ilog2 x - 52)"
    by (simp add: power_int_diff power_int_add)
  have A: "2 ^ 52 \<le> x / 2 powi (ilog2 x - 52)"
    using lo p unfolding e1 by (simp add: pos_le_divide_eq)
  have B: "x / 2 powi (ilog2 x - 52) < 2 ^ 53"
    using hi p unfolding e2 by (simp add: pos_divide_less_eq)
  from A B show ?thesis by simp
qed

lemma rne_scaled_bounds:
  assumes "0 < x"
  shows "2 ^ 52 \<le> rne (x / 2 powi (ilog2 x - 52)) \<and> rne (x / 2 powi (ilog2 x - 52)) \<le> 2 ^ 53"
proof -
  from scaled_bounds[OF assms]
  have lo: "2 ^ 52 \<le> x / 2 powi (ilog2 x - 52)" and hi: "x / 2 powi (ilog2 x - 52) < 2 ^ 53"
    by auto
  have "rne (of_int (2 ^ 52)) \<le> rne (x / 2 powi (ilog2 x - 52))"
    by (rule rne_mono) (use lo in simp)
  then have A: "2 ^ 52 \<le> rne (x / 2 powi (ilog2 x - 52))" by (simp only: rne_of_int)
  have "rne (x / 2 powi (ilog2 x - 52)) \<le> rne (of_int (2 ^ 53))"
    by (rule rne_mono) (use hi in simp)
  then have B: "rne (x / 2 powi (ilog2 x - 52)) \<le> 2 ^ 53" by (simp only: rne_of_int)
  from A B show ?thesis by simp
qed

lemma rnd_pos: "0 < x \<Longrightarrow> 0 < rnd x"
proof -
  assume x: "0 < x"
  from rne_scaled_bounds[OF x] have "0 < rne (x / 2 powi (ilog2 x - 52))" by simp
  then show ?thesis by (simp add: rnd_pos_eq[OF x])
qed

lemma rnd_0: "rnd 0 = 0"
  by (simp add: rnd_def)

lemma rnd_nonneg: "0 \<le> x \<Longrightarrow> 0 \<le> rnd x"
  using rnd_pos[of x] by (cases "x = 0") (simp_all add: rnd_def)

lemma rnd_mono_pos:
  assumes "0 < x" "x \<le> y"
  shows "rnd x \<le> rnd y"
proof -
  have ypos: "0 < y" using assms by simp
  define ex where "ex = ilog2 x - 52"
  define ey where "ey = ilog2 y - 52"
  have rx: "rnd x = of_int (rne (x / 2 powi ex)) * 2 powi ex"
    unfolding ex_def by (rule rnd_pos_eq[OF assms(1)])
  have ry: "rnd y = of_int (rne (y / 2 powi ey)) * 2 powi ey"
    unfolding ey_def by (rule rnd_pos_eq[OF ypos])
  have le: "ex \<le> ey" unfolding ex_def ey_def using ilog2_mono[OF assms] by simp
  show ?thesis
  proof (cases "ex = ey")
    case True
    have "x / 2 powi ey \<le> y / 2 powi ey" using assms(2) by (simp add: divide_right_mono)
    then have "rne (x / 2 powi ey) \<le> rne (y / 2 powi ey)" by (rule rne_mono)
    then have "real_of_int (rne (x / 2 powi ey)) * 2 powi ey
        \<le> real_of_int (rne (y / 2 powi ey)) * 2 powi ey"
      by (simp add: mult_right_mono)
    then show ?thesis unfolding rx ry True .
  next
    case False
    with le have lt: "ex + 1 \<le> ey" by simp
    from rne_scaled_bounds[OF assms(1)] have "rne (x / 2 powi ex) \<le> 2 ^ 53"
      unfolding ex_def by simp
    then have "real_of_int (rne (x / 2 powi ex)) \<le> 2 ^ 53"
      by (metis of_int_le_iff of_int_numeral of_int_power)
    then have "rnd x \<le> 2 ^ 53 * 2 powi ex" unfolding rx by (simp add: mult_right_mono)
    also have "\<dots> = 2 ^ 52 * 2 powi (ex + 1)" by (simp add: power_int_add)
    also have "\<dots> \<le> 2 ^ 52 * 2 powi ey"
      using power_int_increasing[OF lt, of "2::real"] by simp
    also have "\<dots> \<le> rnd y"
    proof -
      from rne_scaled_bounds[OF ypos] have "2 ^ 52 \<le> rne (y / 2 powi ey)"
        unfolding ey_def by simp
      then have "2 ^ 52 \<le> real_of_int (rne (y / 2 powi ey))"
        by (metis of_int_le_iff of_int_numeral of_int_power)
      then show ?thesis unfolding ry by (simp add: mult_right_mono)
    qed
    finally show ?thesis .
  qed
qed

lemma rnd_mono: "0 \<le> x \<Longrightarrow> x \<le> y \<Longrightarrow> rnd x \<le> rnd y"
proof (cases "x = 0")
  case True
  assume "x \<le> y"
  with True have "0 \<le> y" by simp
  then have "0 \<le> rnd y" by (rule rnd_nonneg)
  then show ?thesis using True by (simp add: rnd_def)
next
  case False
  assume "0 \<le> x" "x \<le> y"
  with False show ?thesis by (intro rnd_mono_pos) simp_all
qed

lemma rnd_exact:
  assumes "0 < m" "m < 2 ^ 53"
  shows "rnd (of_int m * 2 powi k) = of_int m * 2 powi k"
proof -
  define x where "x = real_of_int m * 2 powi k"
  have mpos: "0 < real_of_int m" using assms(1) by simp
  have xpos: "0 < x" unfolding x_def using mpos by simp
  define j where "j = ilog2 (real_of_int m)"
  from ilog2_bounds[OF mpos]
  have lo: "2 powi j \<le> real_of_int m" and hi: "real_of_int m < 2 powi (j + 1)"
    unfolding j_def by auto
  have "real_of_int m < 2 ^ 53" using assms(2)
    by (metis of_int_less_iff of_int_numeral of_int_power)
  with lo have "(2::real) powi j < 2 powi 53" by simp
  then have "j < 53" by (rule two_powi_less_imp)
  then have j52: "j \<le> 52" by simp
  have "ilog2 x = j + k"
  proof (rule ilog2_unique[OF xpos])
    show "2 powi (j + k) \<le> x" unfolding x_def using lo
      by (simp add: power_int_add mult_right_mono)
    show "x < 2 powi (j + k + 1)" unfolding x_def using hi
      by (simp add: power_int_add mult_strict_right_mono)
  qed
  moreover define d where "d = nat (52 - j)"
  ultimately have e: "ilog2 x - 52 = k - int d" using j52 by simp
  have sc: "x / 2 powi (k - int d) = of_int (m * 2 ^ d)"
    unfolding x_def by (simp add: power_int_diff)
  have "rnd x = of_int (m * 2 ^ d) * 2 powi (k - int d)"
    by (simp only: rnd_pos_eq[OF xpos] e sc rne_of_int)
  also have "\<dots> = x" unfolding x_def by (simp add: power_int_diff)
  finally show ?thesis unfolding x_def .
qed

lemma rnd_nat_exact: "n < 2 ^ 53 \<Longrightarrow> rnd (real n) = real n"
proof (cases "n = 0")
  case True
  then show ?thesis by (simp add: rnd_def)
next
  case False
  assume "n < 2 ^ 53"
  then have "int n < 2 ^ 53" by (metis of_nat_less_iff of_nat_numeral of_nat_power)
  with False rnd_exact[of "int n" 0] show ?thesis by simp
qed

lemma rnd_idem_scaled:
  assumes "0 < x"
  shows "rnd (rnd x * 2 powi k) = rnd x * 2 powi k"
proof -
  define e where "e = ilog2 x - 52"
  define m where "m = rne (x / 2 powi e)"
  have rx: "rnd x = of_int m * 2 powi e" unfolding m_def e_def by (rule rnd_pos_eq[OF assms])
  from rne_scaled_bounds[OF assms] have lo: "2 ^ 52 \<le> m" and hi: "m \<le> 2 ^ 53"
    unfolding m_def e_def by auto
  show ?thesis
  proof (cases "m = 2 ^ 53")
    case True
    have "rnd x * 2 powi k = of_int (2 ^ 52) * 2 powi (e + 1 + k)"
      unfolding rx True by (simp add: power_int_add)
    moreover have "rnd (of_int (2 ^ 52) * 2 powi (e + 1 + k)) = of_int (2 ^ 52) * 2 powi (e + 1 + k)"
      by (rule rnd_exact) simp_all
    ultimately show ?thesis by simp
  next
    case False
    with hi have m53: "m < 2 ^ 53" by simp
    have mpos: "0 < m" using lo by simp
    have "rnd x * 2 powi k = of_int m * 2 powi (e + k)"
      unfolding rx by (simp add: power_int_add)
    moreover have "rnd (of_int m * 2 powi (e + k)) = of_int m * 2 powi (e + k)"
      by (rule rnd_exact[OF mpos m53])
    ultimately show ?thesis by simp
  qed
qed

lemma rnd_nat_ge_pow2:
  assumes "k \<le> 52"
  shows "(2 ^ k \<le> rnd (real n)) = (2 ^ k \<le> n)"
proof
  assume a: "2 ^ k \<le> n"
  have "(2::nat) ^ k < 2 ^ 53" by (rule power_strict_increasing) (use assms in auto)
  then have "rnd (real ((2::nat) ^ k)) = real (2 ^ k)" by (rule rnd_nat_exact)
  moreover have "rnd (real ((2::nat) ^ k)) \<le> rnd (real n)"
    by (rule rnd_mono) (use a in simp_all)
  ultimately show "2 ^ k \<le> rnd (real n)" by simp
next
  assume b: "2 ^ k \<le> rnd (real n)"
  show "2 ^ k \<le> n"
  proof (rule ccontr)
    assume "\<not> 2 ^ k \<le> n"
    then have lt: "n < 2 ^ k" by simp
    also have "(2::nat) ^ k < 2 ^ 53" by (rule power_strict_increasing) (use assms in auto)
    finally have "rnd (real n) = real n" by (rule rnd_nat_exact)
    with b have "(2::real) ^ k \<le> real n" by simp
    then have "2 ^ k \<le> n" by simp
    with lt show False by simp
  qed
qed

lemma d_div_pow2_exact:
  assumes "n < 2 ^ 53"
  shows "d_div (real n) (2 ^ k) = real n / 2 ^ k"
proof (cases "n = 0")
  case True
  then show ?thesis by (simp add: d_div_def rnd_0)
next
  case False
  have "int n < 2 ^ 53" using assms by (metis of_nat_less_iff of_nat_numeral of_nat_power)
  with False have "rnd (of_int (int n) * 2 powi (- int k)) = of_int (int n) * 2 powi (- int k)"
    by (intro rnd_exact) simp_all
  then show ?thesis by (simp add: d_div_def power_int_minus field_simps)
qed

lemma human_bytes_cases:
  "human_bytes b =
     (if 2 ^ 30 \<le> unat b then fmt_f 2 (d_of_u64 b / 2 ^ 30) @ '' GiB''
      else if 2 ^ 20 \<le> unat b then fmt_f 1 (real (unat b) / 2 ^ 20) @ '' MiB''
      else if 2 ^ 10 \<le> unat b then fmt_f 1 (real (unat b) / 2 ^ 10) @ '' KiB''
      else fmt_llu (unat b) @ '' B'')"
proof -
  define n where "n = unat b"
  have v: "d_of_u64 b = rnd (real n)" by (simp add: d_of_u64_def n_def)
  have t30: "(1024 * 1024 * 1024 \<le> rnd (real n)) = (2 ^ 30 \<le> n)"
    using rnd_nat_ge_pow2[of 30 n] by simp
  have t20: "(1024 * 1024 \<le> rnd (real n)) = (2 ^ 20 \<le> n)"
    using rnd_nat_ge_pow2[of 20 n] by simp
  have t10: "(1024 \<le> rnd (real n)) = (2 ^ 10 \<le> n)"
    using rnd_nat_ge_pow2[of 10 n] by simp
  have g: "0 < n \<Longrightarrow> fmt_f 2 (d_div (rnd (real n)) (1024 * 1024 * 1024))
      = fmt_f 2 (rnd (real n) / 2 ^ 30)"
  proof (rule arg_cong[where f = "fmt_f 2"])
    assume "0 < n"
    then show "d_div (rnd (real n)) (1024 * 1024 * 1024) = rnd (real n) / 2 ^ 30"
      using rnd_idem_scaled[of "real n" "-30"]
      by (simp add: d_div_def power_int_minus field_simps)
  qed
  have small: "n < 2 ^ 30 \<Longrightarrow> rnd (real n) = real n"
    by (rule rnd_nat_exact) simp
  have m: "n < 2 ^ 30 \<Longrightarrow> fmt_f 1 (d_div (real n) (1024 * 1024)) = fmt_f 1 (real n / 2 ^ 20)"
    by (rule arg_cong[where f = "fmt_f 1"]) (use d_div_pow2_exact[of n 20] in simp)
  have k: "n < 2 ^ 30 \<Longrightarrow> fmt_f 1 (d_div (real n) 1024) = fmt_f 1 (real n / 2 ^ 10)"
    by (rule arg_cong[where f = "fmt_f 1"]) (use d_div_pow2_exact[of n 10] in simp)
  show ?thesis
  proof (cases "2 ^ 30 \<le> n")
    case True
    then have "0 < n" by simp
    from g[OF this] True show ?thesis
      unfolding human_bytes_def Let_def v t30 n_def[symmetric] by simp
  next
    case False
    then have lt: "n < 2 ^ 30" by simp
    show ?thesis
      unfolding human_bytes_def Let_def v t30 t20 t10 n_def[symmetric] small[OF lt]
      using False m[OF lt] k[OF lt] by simp
  qed
qed


subsection \<open>human_bytes\<close>

text \<open>
  Claim C9. \<^verbatim>\<open>human_bytes\<close> chooses its format by the input itself: at least \<open>2^30\<close> bytes
  are printed with \<^verbatim>\<open>%.2f GiB\<close>, at least \<open>2^20\<close> with \<^verbatim>\<open>%.1f MiB\<close>, at least \<open>2^10\<close>
  with \<^verbatim>\<open>%.1f KiB\<close>, anything smaller with \<^verbatim>\<open>%llu B\<close>; the number printed is the input
  divided by the matching power of 1024 (below \<open>2^30\<close> the conversion to double and the
  division are exact). At the boundaries: 1024 gives \<^verbatim>\<open>1.0 KiB\<close>, \<open>1024 * 1024 - 1\<close> is still
  printed in KiB, \<open>1024 * 1024\<close> gives \<^verbatim>\<open>1.0 MiB\<close>, and likewise one step up.
\<close>

theorem human_bytes_thresholds:
  "human_bytes b =
     (if 2 ^ 30 \<le> unat b then fmt_f 2 (d_of_u64 b / 2 ^ 30) @ '' GiB''
      else if 2 ^ 20 \<le> unat b then fmt_f 1 (real (unat b) / 2 ^ 20) @ '' MiB''
      else if 2 ^ 10 \<le> unat b then fmt_f 1 (real (unat b) / 2 ^ 10) @ '' KiB''
      else fmt_llu (unat b) @ '' B'')
   \<and> human_bytes 1023 = ''1023 B''
   \<and> human_bytes 1024 = ''1.0 KiB''
   \<and> human_bytes (1024 * 1024 - 1) = ''1024.0 KiB''
   \<and> human_bytes (1024 * 1024) = ''1.0 MiB''
   \<and> human_bytes (1024 * 1024 * 1024 - 1) = ''1024.0 MiB''
   \<and> human_bytes (1024 * 1024 * 1024) = ''1.00 GiB''"
proof -
  have c1: "human_bytes 1023 = ''1023 B''"
    by (simp add: human_bytes_cases fmt_llu.simps digit_char_def)
  have c2: "human_bytes 1024 = ''1.0 KiB''"
    by (simp add: human_bytes_cases fmt_f_def rne_def fmt_llu.simps digit_char_def)
  have c3: "human_bytes (1024 * 1024 - 1) = ''1024.0 KiB''"
    by (simp add: human_bytes_cases fmt_f_def rne_def fmt_llu.simps digit_char_def)
  have c4: "human_bytes (1024 * 1024) = ''1.0 MiB''"
    by (simp add: human_bytes_cases fmt_f_def rne_def fmt_llu.simps digit_char_def)
  have c5: "human_bytes (1024 * 1024 * 1024 - 1) = ''1024.0 MiB''"
    by (simp add: human_bytes_cases fmt_f_def rne_def fmt_llu.simps digit_char_def)
  have c6: "human_bytes (1024 * 1024 * 1024) = ''1.00 GiB''"
    by (simp add: human_bytes_cases fmt_f_def rne_def fmt_llu.simps digit_char_def
        d_of_u64_def rnd_def ilog2_def bitlen.simps)
  from human_bytes_cases[of b] c1 c2 c3 c4 c5 c6 show ?thesis by (simp only: simp_thms)
qed

theorem human_bytes_thresholds_witness:
  "human_bytes 1536 = ''1.5 KiB'' \<and> human_bytes 18446744073709551615 = ''17179869184.00 GiB''"
proof -
  have a: "human_bytes 1536 = ''1.5 KiB''"
    using human_bytes_thresholds[of 1536]
    by (simp add: fmt_f_def rne_def fmt_llu.simps digit_char_def)
  have b: "human_bytes 18446744073709551615 = ''17179869184.00 GiB''"
    using human_bytes_thresholds[of 18446744073709551615]
    by (simp add: fmt_f_def rne_def fmt_llu.simps digit_char_def
        d_of_u64_def rnd_def ilog2_def bitlen.simps)
  from a b show ?thesis by simp
qed

subsection \<open>Keys in SEARCH mode\<close>

lemma isprint_not_ctl:
  "isprint c \<Longrightarrow> c \<noteq> CHR 0x03 \<and> c \<noteq> CHR 0x1B \<and> c \<noteq> CHR 0x7F \<and> c \<noteq> CHR 0x08 \<and> c \<noteq> CHR 0x0A \<and> c \<noteq> CHR 0x0D"
  by (auto simp: isprint_def)

lemma read_key_printable: "isprint c \<Longrightarrow> read_key [c] = \<lparr>type = K_CHAR, ch = c\<rparr>"
  using isprint_not_ctl[of c] by (simp add: read_key_def)

lemma read_key_ctrl_c: "read_key (CHR 0x03 # rest) = key K_QUIT"
  by (simp add: read_key_def)

lemma read_key_quit_iff: "type (read_key buf) = K_QUIT \<longleftrightarrow> (\<exists>rest. buf = CHR 0x03 # rest)"
  by (auto simp: read_key_def key_def split: list.splits)

lemma handle_key_exit_search:
  "is_search u \<Longrightarrow> handle_key u t k = Exit c t' \<longleftrightarrow> type k = K_QUIT \<and> c = 0 \<and> t' = restore_terminal t"
  by (auto simp: handle_key_def)

text \<open>
  Claim C10. In SEARCH mode the byte \<^verbatim>\<open>q\<close>, read alone, is a character key like every
  other printable byte: it is appended to the filter when the filter has fewer than 63
  bytes (selection reset, resample requested) and changes nothing otherwise; it does not
  quit. A read whose first byte is 0x03 is \<^verbatim>\<open>K_QUIT\<close> whatever follows, and it is the only
  read that ends the program from SEARCH mode, with exit code 0 and the terminal restored.
\<close>

theorem search_mode_keys:
  assumes "is_search u"
  shows "read_key (CHR 0x03 # rest) = key K_QUIT
    \<and> handle_key u t (read_key (CHR 0x03 # rest)) = Exit 0 (restore_terminal t)
    \<and> handle_key u t (read_key [CHR ''q'']) =
        Running (if length (filter_buf u) < 63
                 then u\<lparr>filter_buf := filter_buf u @ [CHR ''q''], selection := 0, needs_sample := True\<rparr>
                 else u)
    \<and> (isprint c \<longrightarrow> handle_key u t (read_key [c]) =
        Running (if length (filter_buf u) < 63
                 then u\<lparr>filter_buf := filter_buf u @ [c], selection := 0, needs_sample := True\<rparr>
                 else u))
    \<and> (handle_key u t (read_key buf) = Exit code t'
         \<longleftrightarrow> (\<exists>bs. buf = CHR 0x03 # bs) \<and> code = 0 \<and> t' = restore_terminal t)"
proof -
  have q: "isprint CHR ''q''" by (simp add: isprint_def)
  have pr: "handle_key u t (read_key [x]) =
        Running (if length (filter_buf u) < 63
                 then u\<lparr>filter_buf := filter_buf u @ [x], selection := 0, needs_sample := True\<rparr>
                 else u)" if "isprint x" for x
    using assms that by (simp add: read_key_printable handle_key_def)
  have a: "handle_key u t (read_key (CHR 0x03 # rest)) = Exit 0 (restore_terminal t)"
    by (simp add: read_key_ctrl_c handle_key_def key_def)
  have e: "handle_key u t (read_key buf) = Exit code t'
         \<longleftrightarrow> (\<exists>bs. buf = CHR 0x03 # bs) \<and> code = 0 \<and> t' = restore_terminal t"
    using handle_key_exit_search[OF assms, of t "read_key buf" code t'] read_key_quit_iff[of buf]
    by simp
  from read_key_ctrl_c[of rest] a pr[OF q] pr[of c] e show ?thesis by blast
qed


theorem search_mode_keys_witness:
  "is_search ui_searching
   \<and> handle_key ui_searching term_raw (read_key [CHR 0x03, CHR ''q'']) = Exit 0 (restore_terminal term_raw)
   \<and> lflag (restore_terminal term_raw) = 0x8A3B
   \<and> handle_key ui_searching term_raw (read_key ''q'') = Running (ui_searching\<lparr>filter_buf := ''fireq'', selection := 0, needs_sample := True\<rparr>)
   \<and> key_loop ui_searching term_raw [''q'', [CHR 0x03]] = Exit 0 (restore_terminal term_raw)"
proof -
  have s: "is_search ui_searching" by (simp add: ui_searching_def)
  have p: "isprint CHR ''q''" by (simp add: isprint_def)
  note th = search_mode_keys[OF s, of "[CHR ''q'']" term_raw "CHR ''q''" "[CHR 0x03]" 0 "restore_terminal term_raw"]
  have a: "handle_key ui_searching term_raw (read_key [CHR 0x03, CHR ''q'']) = Exit 0 (restore_terminal term_raw)"
    using th by blast
  have "handle_key ui_searching term_raw (read_key ''q'') =
      Running (if length (filter_buf ui_searching) < 63
               then ui_searching\<lparr>filter_buf := filter_buf ui_searching @ ''q'', selection := 0, needs_sample := True\<rparr>
               else ui_searching)"
    using th by blast
  then have b: "handle_key ui_searching term_raw (read_key ''q'') =
      Running (ui_searching\<lparr>filter_buf := ''fireq'', selection := 0, needs_sample := True\<rparr>)"
    by (simp add: ui_searching_def)
  have c: "handle_key ui_searching term_raw (read_key [CHR 0x03]) = Exit 0 (restore_terminal term_raw)"
    using th by blast
  have l: "lflag (restore_terminal term_raw) = 0x8A3B"
    by (simp add: restore_terminal_def term_raw_def init_terminal_def)
  have k: "key_loop ui_searching term_raw [''q'', [CHR 0x03]] = Exit 0 (restore_terminal term_raw)"
    by (simp add: read_key_def key_def isprint_def handle_key_def ui_searching_def)
  from s a b l k show ?thesis by simp
qed

subsection \<open>Evaluation of the model on concrete inputs\<close>

lemmas dbl_eval = rnd_def ilog2_def rne_def bitlen.simps d_of_u64_def d_of_long_def d_mul_def
  d_div_def d_add_def

lemmas str_eval = isdigit_def atoi_def digit_val_def strcasestr_def tolower_def fmt_d_def
  fmt_llu.simps digit_char_def starts_with_def

lemmas gpu_eval = read_gpu_def gpu_probe_def ms_diff_def gpu_init_def gpu_static_init_def
  adreno_def devfreq_entries_def devfreq_match_def soc_fallback_def read_tz0_def
  signed_divide_int_def

lemmas sample_eval = sample_def elapsed_of_def read_cpu_times_def read_memory_def zero_mem_def
  zero_cpu_def read_network_def net_none_def read_cpu_count_def proc_step_def proc_cpu_def
  overall_cpu_def total_delta_def idle_delta_def cpu_total_def sampler_create_def

lemmas world_eval = sampler0_def world_none_def gpu_world_none_def

subsection \<open>The order of the process list\<close>

lemma set_merge_cmp: "set (merge_cmp c xs ys) = set xs \<union> set ys"
  by (induction c xs ys rule: merge_cmp.induct) auto

lemma set_qsort_r: "set (qsort_r c xs) = set xs"
proof (induction c xs rule: qsort_r.induct)
  case (1 c xs)
  show ?case
  proof (cases "length xs \<le> 1")
    case True
    then show ?thesis by (simp add: qsort_r.simps[of c xs])
  next
    case False
    have "set (qsort_r c xs) = set (take (length xs div 2) xs) \<union> set (drop (length xs div 2) xs)"
      using False 1 by (simp add: qsort_r.simps[of c xs] set_merge_cmp)
    also have "\<dots> = set (take (length xs div 2) xs @ drop (length xs div 2) xs)"
      by (simp only: set_append)
    finally show ?thesis by simp
  qed
qed

lemma sorted_merge_cmp:
  "\<forall>x y. c x y \<le> 0 \<or> c y x \<le> 0 \<Longrightarrow>
   \<forall>x y z. c x y \<le> 0 \<longrightarrow> c y z \<le> 0 \<longrightarrow> c x z \<le> 0 \<Longrightarrow>
   sorted_wrt (\<lambda>x y. c x y \<le> 0) xs \<Longrightarrow> sorted_wrt (\<lambda>x y. c x y \<le> 0) ys
    \<Longrightarrow> sorted_wrt (\<lambda>x y. c x y \<le> 0) (merge_cmp c xs ys)"
proof (induction c xs ys rule: merge_cmp.induct)
  case (1 c ys)
  then show ?case by simp
next
  case (2 c x xs)
  then show ?case by simp
next
  case (3 c x xs y ys)
  note tot = 3(3) and tr = 3(4) and sx = 3(5) and sy = 3(6)
  show ?case
  proof (cases "c x y \<le> 0")
    case True
    have "\<forall>z\<in>set ys. c x z \<le> 0" using True sy tr by auto
    moreover have "sorted_wrt (\<lambda>x y. c x y \<le> 0) (merge_cmp c xs (y # ys))"
      using 3(1)[OF True tot tr _ sy] sx by simp
    ultimately show ?thesis using True sx by (auto simp: set_merge_cmp)
  next
    case False
    then have yx: "c y x \<le> 0" using tot by auto
    have "\<forall>z\<in>set xs. c y z \<le> 0" using yx sx tr by auto
    moreover have "sorted_wrt (\<lambda>x y. c x y \<le> 0) (merge_cmp c (x # xs) ys)"
      using 3(2)[OF False tot tr sx] sy by simp
    ultimately show ?thesis using False yx sy by (auto simp: set_merge_cmp)
  qed
qed

lemma sorted_qsort_r:
  "\<forall>x y. c x y \<le> 0 \<or> c y x \<le> 0 \<Longrightarrow>
   \<forall>x y z. c x y \<le> 0 \<longrightarrow> c y z \<le> 0 \<longrightarrow> c x z \<le> 0 \<Longrightarrow>
   sorted_wrt (\<lambda>x y. c x y \<le> 0) (qsort_r c xs)"
proof (induction c xs rule: qsort_r.induct)
  case (1 c xs)
  show ?case
  proof (cases "length xs \<le> 1")
    case True
    then have "xs = [] \<or> (\<exists>x. xs = [x])" by (cases xs) auto
    then show ?thesis using True by (auto simp: qsort_r.simps[of c xs])
  next
    case False
    from 1(1)[OF False 1(3) 1(4)] 1(2)[OF False 1(3) 1(4)] 1(3) 1(4)
    show ?thesis using False by (simp add: qsort_r.simps[of c xs] sorted_merge_cmp)
  qed
qed

lemma compare_procs_total: "compare_procs m x y \<le> 0 \<or> compare_procs m y x \<le> 0"
  by (auto simp: compare_procs_def split: SortMode.splits)

lemma compare_procs_trans:
  "compare_procs m x y \<le> 0 \<Longrightarrow> compare_procs m y z \<le> 0 \<Longrightarrow> compare_procs m x z \<le> 0"
  by (auto simp: compare_procs_def split: SortMode.splits if_splits)

lemma compare_procs_le_iff:
  "compare_procs m p q \<le> 0 \<longleftrightarrow>
    (case m of
       SORT_CPU \<Rightarrow> cpu_percent p > cpu_percent q
                   \<or> (cpu_percent p = cpu_percent q \<and> mem_bytes p \<ge> mem_bytes q)
     | SORT_MEM \<Rightarrow> mem_bytes p > mem_bytes q
                   \<or> (mem_bytes p = mem_bytes q \<and> cpu_percent p \<ge> cpu_percent q))"
  by (auto simp: compare_procs_def split: SortMode.splits)

lemma sorted_compare_procs: "sorted_wrt (\<lambda>x y. compare_procs m x y \<le> 0) (qsort_r (compare_procs m) xs)"
  by (rule sorted_qsort_r) (use compare_procs_total compare_procs_trans in blast)+

lemma sample_out_procs:
  "out_procs (snd (snd (sample s gst m flt w))) = Some ps \<Longrightarrow>
   \<exists>xs. ps = qsort_r (compare_procs m) xs"
  by (auto simp: sample_def Let_def split: prod.splits option.splits)

text \<open>
  Claim C3, as amended. In the list \<^verbatim>\<open>sample\<close> returns, two neighbours \<open>p\<close>, \<open>q\<close>
  satisfy under \<^verbatim>\<open>SORT_CPU\<close>: \<open>cpu_percent p \<ge> cpu_percent q\<close>, and \<open>mem_bytes p \<ge>
  mem_bytes q\<close> when the percentages are equal; under \<^verbatim>\<open>SORT_MEM\<close> the same with the two
  keys exchanged. The comparator never reads the pid, so nothing is said about the order
  of entries that agree in both keys.
\<close>

theorem sample_sort_order:
  assumes "out_procs (snd (snd (sample s gst m flt w))) = Some ps" and "Suc i < length ps"
  shows "(m = SORT_CPU \<longrightarrow>
            cpu_percent (ps ! i) \<ge> cpu_percent (ps ! Suc i)
            \<and> (cpu_percent (ps ! i) = cpu_percent (ps ! Suc i)
                 \<longrightarrow> mem_bytes (ps ! i) \<ge> mem_bytes (ps ! Suc i)))
       \<and> (m = SORT_MEM \<longrightarrow>
            mem_bytes (ps ! i) \<ge> mem_bytes (ps ! Suc i)
            \<and> (mem_bytes (ps ! i) = mem_bytes (ps ! Suc i)
                 \<longrightarrow> cpu_percent (ps ! i) \<ge> cpu_percent (ps ! Suc i)))"
proof -
  from sample_out_procs[OF assms(1)] obtain xs where ps: "ps = qsort_r (compare_procs m) xs" ..
  have "sorted_wrt (\<lambda>x y. compare_procs m x y \<le> 0) ps"
    unfolding ps by (rule sorted_compare_procs)
  from sorted_wrt_nth_less[OF this, of i "Suc i"] assms(2)
  have "compare_procs m (ps ! i) (ps ! Suc i) \<le> 0" by simp
  then show ?thesis
    by (cases m) (auto simp: compare_procs_le_iff)
qed

lemma sample_two_procs:
  "out_procs (snd (snd (sample sampler0 gpu_static_init SORT_CPU [] world_two_procs))) =
     Some [\<lparr>pid = 2, name = ''sh'', cpu_percent = 25, mem_bytes = 409600, threads = 1\<rparr>,
           \<lparr>pid = 1, name = ''init'', cpu_percent = 25, mem_bytes = 409600, threads = 1\<rparr>]"
  by (simp add: sample_eval gpu_eval str_eval dbl_eval world_eval world_two_procs_def
      Let_def qsort_r.simps compare_procs_def)

lemma sample_three_procs:
  "out_procs (snd (snd (sample sampler0 gpu_static_init SORT_MEM [] world_three_procs))) =
     Some [\<lparr>pid = 12, name = ''Xorg'', cpu_percent = 25, mem_bytes = 1228800, threads = 4\<rparr>,
           \<lparr>pid = 10, name = ''cron'', cpu_percent = 10, mem_bytes = 1228800, threads = 1\<rparr>,
           \<lparr>pid = 11, name = ''sshd'', cpu_percent = 25, mem_bytes = 409600, threads = 2\<rparr>]"
  by (simp add: sample_eval gpu_eval str_eval dbl_eval world_eval world_three_procs_def
      Let_def qsort_r.simps compare_procs_def)

theorem sample_sort_order_witness:
  "map pid (the (out_procs (snd (snd (sample sampler0 gpu_static_init SORT_MEM []
      world_three_procs))))) = [12, 10, 11]
   \<and> mem_bytes (the (out_procs (snd (snd (sample sampler0 gpu_static_init SORT_MEM []
          world_three_procs)))) ! 0)
       \<ge> mem_bytes (the (out_procs (snd (snd (sample sampler0 gpu_static_init SORT_MEM []
          world_three_procs)))) ! Suc 0)
   \<and> cpu_percent (the (out_procs (snd (snd (sample sampler0 gpu_static_init SORT_MEM []
          world_three_procs)))) ! 0)
       \<ge> cpu_percent (the (out_procs (snd (snd (sample sampler0 gpu_static_init SORT_MEM []
          world_three_procs)))) ! Suc 0)"
  using sample_sort_order[OF sample_three_procs, of 0] by (simp add: sample_three_procs)

text \<open>
  The claim as stated also orders entries that agree in both keys by ascending pid. Two
  such processes, pid 2 read before pid 1, come out as they went in.
\<close>

theorem sample_ties_not_by_pid:
  "map pid (the (out_procs (snd (snd (sample sampler0 gpu_static_init SORT_CPU []
      world_two_procs))))) = [2, 1]
   \<and> map cpu_percent (the (out_procs (snd (snd (sample sampler0 gpu_static_init SORT_CPU []
      world_two_procs))))) = [25, 25]
   \<and> map mem_bytes (the (out_procs (snd (snd (sample sampler0 gpu_static_init SORT_CPU []
      world_two_procs))))) = [409600, 409600]"
  by (simp add: sample_two_procs)

subsection \<open>The overall CPU percentage\<close>

lemma rnd_100: "rnd 100 = 100"
  using rnd_nat_exact[of 100] by simp

lemma d_mul_100_exact:
  assumes "a < 2 ^ 48"
  shows "d_mul (real a) 100 = real a * 100"
proof (cases "a = 0")
  case True
  then show ?thesis by (simp add: d_mul_def rnd_0)
next
  case False
  have "25 * a < 25 * 2 ^ 48" using assms by simp
  also have "\<dots> < (2::nat) ^ 53" by simp
  finally have "int (25 * a) < 2 ^ 53"
    by (metis of_nat_less_iff of_nat_numeral of_nat_power)
  with False have "rnd (of_int (int (25 * a)) * 2 powi 2) = of_int (int (25 * a)) * 2 powi 2"
    by (intro rnd_exact) simp_all
  then show ?thesis by (simp add: d_mul_def mult.commute)
qed

lemma percent_bounds:
  assumes "a \<le> b" "0 < b" "b < 2 ^ 48"
  shows "0 \<le> d_div (d_mul (rnd (real a)) 100) (rnd (real b))
       \<and> d_div (d_mul (rnd (real a)) 100) (rnd (real b)) \<le> 100"
proof -
  have a48: "a < 2 ^ 48" using assms by simp
  have ra: "rnd (real a) = real a" by (rule rnd_nat_exact) (use a48 in simp)
  have rb: "rnd (real b) = real b" by (rule rnd_nat_exact) (use assms(3) in simp)
  have q0: "0 \<le> real a * 100 / real b" by simp
  have q1: "real a * 100 / real b \<le> 100" using assms(1,2) by (simp add: field_simps)
  have "d_div (d_mul (rnd (real a)) 100) (rnd (real b)) = rnd (real a * 100 / real b)"
    by (simp add: ra rb d_mul_100_exact[OF a48] d_div_def)
  moreover have "0 \<le> rnd (real a * 100 / real b)" using q0 by (rule rnd_nonneg)
  moreover have "rnd (real a * 100 / real b) \<le> rnd 100" using q0 q1 by (rule rnd_mono)
  ultimately show ?thesis by (simp add: rnd_100)
qed

lemma unat_add_no_wrap:
  "unat (a :: u64) + unat b < 2 ^ 64 \<Longrightarrow> unat (a + b) = unat a + unat b"
  by (simp add: unat_add_lem[THEN iffD1])

lemma unat_cpu_total:
  assumes "unat (user c) + unat (nice c) + unat (system c) + unat (idle c) + unat (iowait c)
           + unat (irq c) + unat (softirq c) + unat (steal c) < 2 ^ 64"
  shows "unat (cpu_total c) = unat (user c) + unat (nice c) + unat (system c) + unat (idle c)
           + unat (iowait c) + unat (irq c) + unat (softirq c) + unat (steal c)"
  using assms unfolding cpu_total_def by (simp add: unat_add_no_wrap)


lemma overall_cpu_bounds:
  assumes le: "user p \<le> user c" "nice p \<le> nice c" "system p \<le> system c" "idle p \<le> idle c"
      "iowait p \<le> iowait c" "irq p \<le> irq c" "softirq p \<le> softirq c" "steal p \<le> steal c"
    and small: "unat (user c) + unat (nice c) + unat (system c) + unat (idle c) + unat (iowait c)
           + unat (irq c) + unat (softirq c) + unat (steal c) < 2 ^ 48"
  shows "0 \<le> overall_cpu p c \<and> overall_cpu p c \<le> 100"
proof (cases "total_delta p c > 0")
  case False
  then show ?thesis by (simp add: overall_cpu_def)
next
  case True
  note nle = le[unfolded word_le_nat_alt]
  have c64: "unat (user c) + unat (nice c) + unat (system c) + unat (idle c) + unat (iowait c)
           + unat (irq c) + unat (softirq c) + unat (steal c) < 2 ^ 64"
    using small by (rule less_trans) simp
  have p64: "unat (user p) + unat (nice p) + unat (system p) + unat (idle p) + unat (iowait p)
           + unat (irq p) + unat (softirq p) + unat (steal p) < 2 ^ 64"
    using nle c64 by linarith
  note tc = unat_cpu_total[OF c64] and tp = unat_cpu_total[OF p64]
  have ple: "cpu_total p \<le> cpu_total c" unfolding word_le_nat_alt tc tp using nle by linarith
  have td: "unat (total_delta p c) = unat (cpu_total c) - unat (cpu_total p)"
    unfolding total_delta_def using ple by (rule unat_sub)
  have ic: "unat (idle c + iowait c) = unat (idle c) + unat (iowait c)"
    by (rule unat_add_no_wrap) (use c64 in linarith)
  have ip: "unat (idle p + iowait p) = unat (idle p) + unat (iowait p)"
    by (rule unat_add_no_wrap) (use p64 in linarith)
  have ile: "idle p + iowait p \<le> idle c + iowait c"
    unfolding word_le_nat_alt ic ip using nle by linarith
  have idl: "unat (idle_delta p c) = unat (idle c + iowait c) - unat (idle p + iowait p)"
    unfolding idle_delta_def using ile by (rule unat_sub)
  have nid: "unat (idle_delta p c) \<le> unat (total_delta p c)"
    unfolding td idl tc tp ic ip using nle by linarith
  then have wid: "idle_delta p c \<le> total_delta p c" by (simp add: word_le_nat_alt)
  have diff: "unat (total_delta p c - idle_delta p c) = unat (total_delta p c) - unat (idle_delta p c)"
    using wid by (rule unat_sub)
  have a_le: "unat (total_delta p c - idle_delta p c) \<le> unat (total_delta p c)"
    unfolding diff by simp
  have b_pos: "0 < unat (total_delta p c)" using True by (simp add: word_less_nat_alt)
  have b_small: "unat (total_delta p c) < 2 ^ 48"
    unfolding td tc tp using small by linarith
  from percent_bounds[OF a_le b_pos b_small] True
  show ?thesis by (simp add: overall_cpu_def d_of_u64_def)
qed

lemma sample_out_cpu:
  "out_cpu (snd (snd (sample s gst m flt w))) =
     overall_cpu (prev_cpu s) (read_cpu_times (proc_stat_cpu w))"
  by (simp add: sample_def Let_def split: prod.splits option.splits)


text \<open>
  Claim C4, as amended. When none of the eight counters of the current snapshot is below
  its value in the previous snapshot and the eight current counters sum to less than
  \<open>2^48\<close>, the overall CPU percentage of \<^verbatim>\<open>sample\<close> lies between 0 and 100. Under the
  bound the 64-bit sums do not wrap and the product by 100.0 is exact, so that only the
  final division rounds.
\<close>

theorem sample_cpu_percent_range:
  assumes "c = read_cpu_times (proc_stat_cpu w)"
    and "user (prev_cpu s) \<le> user c" "nice (prev_cpu s) \<le> nice c"
      "system (prev_cpu s) \<le> system c" "idle (prev_cpu s) \<le> idle c"
      "iowait (prev_cpu s) \<le> iowait c" "irq (prev_cpu s) \<le> irq c"
      "softirq (prev_cpu s) \<le> softirq c" "steal (prev_cpu s) \<le> steal c"
    and "unat (user c) + unat (nice c) + unat (system c) + unat (idle c) + unat (iowait c)
           + unat (irq c) + unat (softirq c) + unat (steal c) < 2 ^ 48"
  shows "0 \<le> out_cpu (snd (snd (sample s gst m flt w)))
       \<and> out_cpu (snd (snd (sample s gst m flt w))) \<le> 100"
  unfolding sample_out_cpu assms(1)[symmetric]
  by (rule overall_cpu_bounds) (use assms in simp_all)

lemma cpu_later: "read_cpu_times (proc_stat_cpu world_cpu_later) =
    \<lparr>user = 200, nice = 0, system = 200, idle = 1000, iowait = 0, irq = 0, softirq = 0, steal = 0\<rparr>"
  by (simp add: world_cpu_later_def world_none_def read_cpu_times_def Let_def)

theorem sample_cpu_percent_range_witness:
  "out_cpu (snd (snd (sample sampler_prev gpu_static_init SORT_CPU [] world_cpu_later))) = 50
   \<and> (0::double) \<le> 50 \<and> (50::double) \<le> 100"
proof -
  have "0 \<le> out_cpu (snd (snd (sample sampler_prev gpu_static_init SORT_CPU [] world_cpu_later)))
       \<and> out_cpu (snd (snd (sample sampler_prev gpu_static_init SORT_CPU [] world_cpu_later))) \<le> 100"
    by (rule sample_cpu_percent_range[OF cpu_later[symmetric]])
       (simp_all add: sampler_prev_def sampler0_def sampler_create_def)
  moreover have "out_cpu (snd (snd (sample sampler_prev gpu_static_init SORT_CPU [] world_cpu_later))) = 50"
    by (simp add: sample_out_cpu cpu_later sampler_prev_def overall_cpu_def total_delta_def
        idle_delta_def cpu_total_def dbl_eval)
  ultimately show ?thesis by simp
qed

text \<open>
  Without the bound the claim fails. A fresh sampler (previous snapshot all zero) that
  reads \<open>user = 360287970189643\<close> and zeros reports \<open>100 + 2^-46\<close>: the product
  with 100.0 is a tie and rounds up, and the quotient is nearer to the double above 100.
  One that reads \<open>user = 2^63\<close>, \<open>idle = 2^63 + 1\<close> has a total that wraps to 1 and
  reports \<open>2^63 * 100\<close>.
\<close>

theorem sample_cpu_percent_above_100:
  "prev_cpu sampler0 = zero_cpu
   \<and> out_cpu (snd (snd (sample sampler0 gpu_static_init SORT_CPU [] world_huge_user)))
       = 100 + 1 / 2 ^ 46
   \<and> out_cpu (snd (snd (sample sampler0 gpu_static_init SORT_CPU [] world_sum_wraps)))
       = 922337203685477580800"
  by (simp add: sample_out_cpu world_huge_user_def world_sum_wraps_def world_eval
      sampler_create_def read_cpu_times_def zero_cpu_def overall_cpu_def total_delta_def
      idle_delta_def cpu_total_def dbl_eval Let_def)

text \<open>
  Claim C1 says that a counter that went backwards yields a delta of 0 and an overall
  percentage of 0. \<^verbatim>\<open>sample\<close> subtracts the wrapped 64-bit totals without any clamp.
  With the previous snapshot \<^verbatim>\<open>cpu 100 0 100 800\<close>: reading \<^verbatim>\<open>cpu 50 0 200 1000\<close> gives 20
  percent, and reading \<^verbatim>\<open>cpu 10 0 10 80\<close> gives a total delta of \<open>2^64 - 900\<close> and 100
  percent.
\<close>

theorem sample_cpu_counter_reset:
  "out_cpu (snd (snd (sample sampler_prev gpu_static_init SORT_CPU [] world_user_reset))) = 20
   \<and> total_delta (prev_cpu sampler_prev) (read_cpu_times (proc_stat_cpu world_all_reset))
       = 18446744073709550716
   \<and> out_cpu (snd (snd (sample sampler_prev gpu_static_init SORT_CPU [] world_all_reset))) = 100"
  by (simp add: sample_out_cpu world_user_reset_def world_all_reset_def world_eval
      sampler_prev_def sampler_create_def read_cpu_times_def zero_cpu_def overall_cpu_def
      total_delta_def idle_delta_def cpu_total_def dbl_eval Let_def word_less_nat_alt)

subsection \<open>The process loop of sample\<close>

lemma read_network_frame:
  "prev_ticks (fst (read_network s e f)) = prev_ticks s
   \<and> prev_cpu (fst (read_network s e f)) = prev_cpu s
   \<and> page_size (fst (read_network s e f)) = page_size s
   \<and> v3d_stats (fst (read_network s e f)) = v3d_stats s"
  by (simp add: read_network_def Let_def split: option.splits)

lemma read_gpu_frame:
  "prev_ticks (fst (read_gpu s st mem w)) = prev_ticks s
   \<and> prev_cpu (fst (read_gpu s st mem w)) = prev_cpu s
   \<and> page_size (fst (read_gpu s st mem w)) = page_size s
   \<and> prev_net (fst (read_gpu s st mem w)) = prev_net s"
  by (simp add: read_gpu_def Let_def)

text \<open>The state with which the loop over /proc runs.\<close>

lemma sample_unfold:
  "sample s gst m flt w =
     (let s3 = fst (read_gpu (fst (read_network (s\<lparr>last_sample := now w\<rparr>)
                      (elapsed_of (now w) (last_sample s)) (net_dev w)))
                    gst (read_memory (meminfo w)) (gpu w));
          gst' = fst (snd (read_gpu (fst (read_network (s\<lparr>last_sample := now w\<rparr>)
                      (elapsed_of (now w) (last_sample s)) (net_dev w)))
                    gst (read_memory (meminfo w)) (gpu w)));
          out0 = \<lparr>out_procs = None,
                  out_cpu = overall_cpu (prev_cpu s) (read_cpu_times (proc_stat_cpu w)),
                  out_mem = read_memory (meminfo w),
                  out_net = snd (read_network (s\<lparr>last_sample := now w\<rparr>)
                      (elapsed_of (now w) (last_sample s)) (net_dev w)),
                  out_gpu = snd (snd (read_gpu (fst (read_network (s\<lparr>last_sample := now w\<rparr>)
                      (elapsed_of (now w) (last_sample s)) (net_dev w)))
                    gst (read_memory (meminfo w)) (gpu w))),
                  out_cpus = read_cpu_count (proc_stat_lines w)\<rparr>
      in case proc_dir w of
           None \<Rightarrow> (s3, gst', out0)
         | Some entries \<Rightarrow>
             (s3\<lparr>prev_ticks := snd (foldl (proc_step s3 flt
                      (total_delta (prev_cpu s) (read_cpu_times (proc_stat_cpu w)))) ([], []) entries),
                 prev_cpu := read_cpu_times (proc_stat_cpu w)\<rparr>, gst',
              out0\<lparr>out_procs := Some (qsort_r (compare_procs m)
                  (fst (foldl (proc_step s3 flt
                      (total_delta (prev_cpu s) (read_cpu_times (proc_stat_cpu w)))) ([], []) entries)))\<rparr>))"
  by (simp add: sample_def Let_def split: prod.splits option.splits)

text \<open>
  Claim C5 says that \<^verbatim>\<open>sample\<close> always produces the complete result. When
  \<^verbatim>\<open>opendir("/proc")\<close> fails it returns before it writes \<^verbatim>\<open>*out_procs\<close> and
  \<^verbatim>\<open>*out_count\<close>, and before it stores the CPU snapshot and the tick table.
\<close>

theorem sample_proc_unreadable:
  "proc_dir w = None \<Longrightarrow>
     out_procs (snd (snd (sample s gst m flt w))) = None
     \<and> prev_cpu (fst (sample s gst m flt w)) = prev_cpu s
     \<and> prev_ticks (fst (sample s gst m flt w)) = prev_ticks s"
  by (simp add: sample_unfold Let_def read_gpu_frame read_network_frame)

theorem sample_proc_unreadable_witness:
  "proc_dir world_cpu_later = None
   \<and> out_procs (snd (snd (sample sampler_prev gpu_static_init SORT_CPU [] world_cpu_later))) = None
   \<and> prev_cpu (fst (sample sampler_prev gpu_static_init SORT_CPU [] world_cpu_later))
       = prev_cpu sampler_prev"
proof -
  have a: "proc_dir world_cpu_later = None" by (simp add: world_cpu_later_def world_none_def)
  from a sample_proc_unreadable[OF a, of sampler_prev gpu_static_init SORT_CPU "[]"]
  show ?thesis by simp
qed


lemma find_prev_ticks_map_of:
  "find_prev_ticks tbl p =
     (case map_of (map (\<lambda>t. (tick_pid t, ticks t)) tbl) p of None \<Rightarrow> 0 | Some pt \<Rightarrow> pt)"
  by (induction tbl) auto

lemma proc_step_cases:
  "proc_step s flt td acc e = acc
   \<or> (\<exists>p t. proc_step s flt td acc e = (fst acc @ [p], snd acc @ [t]) \<and> from_entry s td [e] p)"
  by (auto simp: proc_step_def from_entry_def split: list.splits option.splits prod.splits)

lemma from_entry_mono: "from_entry s td es p \<Longrightarrow> set es \<subseteq> set es' \<Longrightarrow> from_entry s td es' p"
  unfolding from_entry_def by blast

lemma foldl_proc_step:
  "\<forall>p\<in>set (fst acc). from_entry s td es0 p \<Longrightarrow> set es \<subseteq> set es0 \<Longrightarrow>
   \<forall>p\<in>set (fst (foldl (proc_step s flt td) acc es)). from_entry s td es0 p"
proof (induction es arbitrary: acc)
  case Nil
  then show ?case by simp
next
  case (Cons e es)
  have e0: "set [e] \<subseteq> set es0" using Cons.prems(2) by simp
  have "\<forall>p\<in>set (fst (proc_step s flt td acc e)). from_entry s td es0 p"
    using proc_step_cases[of s flt td acc e] Cons.prems(1) from_entry_mono[OF _ e0]
    by auto
  moreover have "set es \<subseteq> set es0" using Cons.prems(2) by simp
  ultimately show ?case using Cons.IH by simp
qed


lemma proc_cpu_cases:
  "(td = 0 \<longrightarrow> proc_cpu td T (find_prev_ticks tbl p) = 0)
   \<and> (td > 0 \<longrightarrow>
        (case map_of (map (\<lambda>t. (tick_pid t, ticks t)) tbl) p of
           None \<Rightarrow> proc_cpu td T (find_prev_ticks tbl p)
                    = d_div (d_mul (d_of_u64 T) 100) (d_of_u64 td)
         | Some pt \<Rightarrow> pt \<le> T \<longrightarrow> proc_cpu td T (find_prev_ticks tbl p)
                    = d_div (d_mul (rnd (real (unat T - unat pt))) 100) (d_of_u64 td)))"
  by (auto simp: proc_cpu_def find_prev_ticks_map_of d_of_u64_def unat_sub split: option.splits)

text \<open>
  Claim C2, as amended. Every process in the list of \<^verbatim>\<open>sample\<close> comes from an entry of
  \<^verbatim>\<open>/proc\<close> with \<open>total_ticks = utime + stime\<close>, and with \<open>td\<close> the total CPU delta: its
  percentage is 0 when \<open>td = 0\<close>; when \<open>td > 0\<close> and the previous table has no entry for
  the pid it is \<open>total_ticks * 100 / td\<close> (the previous ticks count as 0); when the
  table's first entry for the pid holds \<open>pt \<le> total_ticks\<close> it is
  \<open>(total_ticks - pt) * 100 / td\<close>; each in double arithmetic.
\<close>

theorem sample_proc_cpu_percent:
  assumes "out_procs (snd (snd (sample s gst m flt w))) = Some ps" and "p \<in> set ps"
  shows "\<exists>es e st ut stm thr rss.
      proc_dir w = Some es \<and> e \<in> set es \<and> stat e = Some st
      \<and> stat_fields st = Some (ut, stm, thr, rss) \<and> pid p = atoi (d_name e)
      \<and> (let td = total_delta (prev_cpu s) (read_cpu_times (proc_stat_cpu w));
              total_ticks = ut + stm
          in (td = 0 \<longrightarrow> cpu_percent p = 0)
           \<and> (td > 0 \<longrightarrow>
               (case map_of (map (\<lambda>t. (tick_pid t, ticks t)) (prev_ticks s)) (pid p) of
                  None \<Rightarrow> cpu_percent p = d_div (d_mul (d_of_u64 total_ticks) 100) (d_of_u64 td)
                | Some pt \<Rightarrow> pt \<le> total_ticks \<longrightarrow>
                    cpu_percent p = d_div (d_mul (rnd (real (unat total_ticks - unat pt))) 100)
                                      (d_of_u64 td))))"
proof -
  define s3 where "s3 = fst (read_gpu (fst (read_network (s\<lparr>last_sample := now w\<rparr>)
                      (elapsed_of (now w) (last_sample s)) (net_dev w)))
                    gst (read_memory (meminfo w)) (gpu w))"
  define td where "td = total_delta (prev_cpu s) (read_cpu_times (proc_stat_cpu w))"
  have pt: "prev_ticks s3 = prev_ticks s"
    unfolding s3_def by (simp add: read_gpu_frame read_network_frame)
  from assms(1) obtain es where es: "proc_dir w = Some es"
    and ps: "ps = qsort_r (compare_procs m) (fst (foldl (proc_step s3 flt td) ([], []) es))"
    unfolding sample_unfold Let_def s3_def td_def by (auto split: option.splits)
  have "p \<in> set (fst (foldl (proc_step s3 flt td) ([], []) es))"
    using assms(2) unfolding ps by (simp add: set_qsort_r)
  moreover have "\<forall>p\<in>set (fst (foldl (proc_step s3 flt td) ([], []) es)). from_entry s3 td es p"
    by (rule foldl_proc_step) simp_all
  ultimately have "from_entry s3 td es p" by blast
  then obtain e st ut stm thr rss where e: "e \<in> set es" "stat e = Some st"
      "stat_fields st = Some (ut, stm, thr, rss)" "pid p = atoi (d_name e)"
      and cp: "cpu_percent p = proc_cpu td (ut + stm) (find_prev_ticks (prev_ticks s) (pid p))"
    unfolding from_entry_def pt by blast
  from proc_cpu_cases[of td "ut + stm" "prev_ticks s" "pid p"]
  have "(td = 0 \<longrightarrow> cpu_percent p = 0)
      \<and> (td > 0 \<longrightarrow>
          (case map_of (map (\<lambda>t. (tick_pid t, ticks t)) (prev_ticks s)) (pid p) of
             None \<Rightarrow> cpu_percent p = d_div (d_mul (d_of_u64 (ut + stm)) 100) (d_of_u64 td)
           | Some pt \<Rightarrow> pt \<le> ut + stm \<longrightarrow>
               cpu_percent p = d_div (d_mul (rnd (real (unat (ut + stm) - unat pt))) 100)
                                 (d_of_u64 td)))"
    unfolding cp by simp
  with es e show ?thesis unfolding Let_def td_def by blast
qed

lemma sample_proc_123:
  "out_procs (snd (snd (sample sampler_seen_123 gpu_static_init SORT_CPU [] world_proc_123))) =
     Some [\<lparr>pid = 123, name = ''firefox'', cpu_percent = 50, mem_bytes = 20480000, threads = 8\<rparr>]"
  by (simp add: sample_eval gpu_eval str_eval dbl_eval world_eval world_proc_123_def
      world_cpu_later_def sampler_seen_123_def sampler_prev_def
      Let_def qsort_r.simps compare_procs_def word_less_nat_alt)

lemma sample_proc_123_new:
  "out_procs (snd (snd (sample sampler_prev gpu_static_init SORT_CPU [] world_proc_123))) =
     Some [\<lparr>pid = 123, name = ''firefox'', cpu_percent = 300, mem_bytes = 20480000, threads = 8\<rparr>]"
  by (simp add: sample_eval gpu_eval str_eval dbl_eval world_eval world_proc_123_def
      world_cpu_later_def sampler_prev_def
      Let_def qsort_r.simps compare_procs_def word_less_nat_alt)


theorem sample_proc_cpu_percent_witness:
  "out_procs (snd (snd (sample sampler_seen_123 gpu_static_init SORT_CPU [] world_proc_123))) =
     Some [\<lparr>pid = 123, name = ''firefox'', cpu_percent = 50, mem_bytes = 20480000, threads = 8\<rparr>]
   \<and> map_of (map (\<lambda>t. (tick_pid t, ticks t)) (prev_ticks sampler_seen_123)) 123 = Some 1000
   \<and> total_delta (prev_cpu sampler_seen_123) (read_cpu_times (proc_stat_cpu world_proc_123)) = 400
   \<and> (50 :: double) = d_div (d_mul (rnd (real (unat (1200 :: u64) - unat (1000 :: u64)))) 100)
                          (d_of_u64 400)"
proof -
  define P where "P = \<lparr>pid = 123, name = ''firefox'', cpu_percent = 50,
    mem_bytes = 20480000 :: u64, threads = 8\<rparr>"
  have ev: "out_procs (snd (snd (sample sampler_seen_123 gpu_static_init SORT_CPU []
      world_proc_123))) = Some [P]"
    unfolding P_def by (rule sample_proc_123)
  have tbl: "map_of (map (\<lambda>t. (tick_pid t, ticks t)) (prev_ticks sampler_seen_123)) 123 = Some 1000"
    by (simp add: sampler_seen_123_def)
  have td: "total_delta (prev_cpu sampler_seen_123) (read_cpu_times (proc_stat_cpu world_proc_123))
      = 400"
    by (simp add: sampler_seen_123_def sampler_prev_def world_proc_123_def world_cpu_later_def
        world_none_def read_cpu_times_def total_delta_def cpu_total_def Let_def)
  from sample_proc_cpu_percent[OF ev, of P]
  obtain es e st ut stm thr rss where es: "proc_dir world_proc_123 = Some es" and e: "e \<in> set es"
    and st: "stat e = Some st" and f: "stat_fields st = Some (ut, stm, thr, rss)"
    and c: "let td = total_delta (prev_cpu sampler_seen_123)
                       (read_cpu_times (proc_stat_cpu world_proc_123));
                total_ticks = ut + stm
            in (td = 0 \<longrightarrow> cpu_percent P = 0)
             \<and> (td > 0 \<longrightarrow>
                 (case map_of (map (\<lambda>t. (tick_pid t, ticks t)) (prev_ticks sampler_seen_123)) (pid P) of
                    None \<Rightarrow> cpu_percent P = d_div (d_mul (d_of_u64 total_ticks) 100) (d_of_u64 td)
                  | Some pt \<Rightarrow> pt \<le> total_ticks \<longrightarrow>
                      cpu_percent P = d_div (d_mul (rnd (real (unat total_ticks - unat pt))) 100)
                                        (d_of_u64 td)))"
    by auto
  from es e st f have "ut = 1000" "stm = 200"
    by (auto simp: world_proc_123_def world_cpu_later_def world_none_def)
  with c have "cpu_percent P = d_div (d_mul (rnd (real (unat (1200 :: u64) - unat (1000 :: u64)))) 100)
                          (d_of_u64 400)"
    unfolding Let_def td by (simp add: P_def tbl)
  then show ?thesis using ev tbl td by (simp add: P_def)
qed

text \<open>
  The claim as stated gives 0 to a pid that the previous sample did not see. A sampler
  with an empty previous table meets pid 123 with 1200 ticks while the totals advance by
  400: the process is reported at 300 percent.
\<close>

theorem sample_new_pid_not_zero:
  "prev_ticks sampler_prev = []
   \<and> total_delta (prev_cpu sampler_prev) (read_cpu_times (proc_stat_cpu world_proc_123)) = 400
   \<and> out_procs (snd (snd (sample sampler_prev gpu_static_init SORT_CPU [] world_proc_123))) =
     Some [\<lparr>pid = 123, name = ''firefox'', cpu_percent = 300, mem_bytes = 20480000, threads = 8\<rparr>]"
proof -
  have "total_delta (prev_cpu sampler_prev) (read_cpu_times (proc_stat_cpu world_proc_123)) = 400"
    by (simp add: sampler_prev_def world_proc_123_def world_cpu_later_def
        world_none_def read_cpu_times_def total_delta_def cpu_total_def Let_def)
  moreover have "prev_ticks sampler_prev = []"
    by (simp add: sampler_prev_def sampler0_def sampler_create_def)
  ultimately show ?thesis using sample_proc_123_new by simp
qed

subsection \<open>read_network\<close>

lemma d_div_zero: "d_div 0 e = 0"
  by (simp add: d_div_def rnd_0)

lemma d_of_u64_nonneg: "0 \<le> d_of_u64 w"
  unfolding d_of_u64_def by (rule rnd_nonneg) (rule of_nat_0_le_iff)

lemma d_div_nonneg: "0 \<le> a \<Longrightarrow> 0 < e \<Longrightarrow> 0 \<le> d_div a e"
  unfolding d_div_def by (rule rnd_nonneg) simp

lemma d_of_u64_0: "d_of_u64 0 = 0"
  by (simp add: d_of_u64_def rnd_0)

lemma iface_rates_first_sight:
  "find_prev_net prev (iface r) = None \<Longrightarrow> iface_rates prev e r = (0, 0)"
  by (simp add: iface_rates_def d_of_u64_0 d_div_zero)

lemma iface_rates_nonneg:
  "0 < e \<Longrightarrow> 0 \<le> fst (iface_rates prev e r) \<and> 0 \<le> snd (iface_rates prev e r)"
  by (simp add: iface_rates_def Let_def d_div_nonneg d_of_u64_nonneg)

lemma net_line_None: "net_line prev e st None = st"
  by (simp add: net_line_def)

lemma net_line_lo: "iface r = ''lo'' \<Longrightarrow> net_line prev e st (Some r) = st"
  by (simp add: net_line_def)

lemma net_line_row:
  "iface r \<noteq> ''lo'' \<Longrightarrow> net_line prev e st (Some r) =
     (if rx r + tx r > best_total st
      then st\<lparr>cur_net := cur_net st @ [r], best := net_snap prev e r, best_total := rx r + tx r\<rparr>
      else st\<lparr>cur_net := cur_net st @ [r]\<rparr>)"
  by (simp add: net_line_def net_snap_def Let_def)

lemma net_rows_snoc:
  "net_rows (ls @ [l]) = net_rows ls @ (case l of None \<Rightarrow> []
     | Some r \<Rightarrow> if iface r = ''lo'' then [] else [r])"
  by (induction ls rule: net_rows.induct) (auto split: option.splits)

lemma net_loop_inv:
  "net_inv prev e (net_rows ls)
     (foldl (net_line prev e) \<lparr>cur_net = [], best = net_none, best_total = 0\<rparr> ls)"
proof (induction ls rule: rev_induct)
  case Nil
  show ?case by (simp add: net_inv_def)
next
  case (snoc l ls)
  define st where "st = foldl (net_line prev e) \<lparr>cur_net = [], best = net_none, best_total = 0\<rparr> ls"
  have inv: "net_inv prev e (net_rows ls) st" using snoc unfolding st_def .
  show ?case
  proof (cases l)
    case None
    then show ?thesis using inv by (simp add: net_rows_snoc net_line_None st_def)
  next
    case (Some r)
    show ?thesis
    proof (cases "iface r = ''lo''")
      case True
      then show ?thesis using inv Some by (simp add: net_rows_snoc net_line_lo st_def)
    next
      case False
      have step: "foldl (net_line prev e) \<lparr>cur_net = [], best = net_none, best_total = 0\<rparr> (ls @ [l])
          = (if rx r + tx r > best_total st
             then st\<lparr>cur_net := cur_net st @ [r], best := net_snap prev e r, best_total := rx r + tx r\<rparr>
             else st\<lparr>cur_net := cur_net st @ [r]\<rparr>)"
        using Some False by (simp add: st_def[symmetric] net_line_row)
      have rows: "net_rows (ls @ [l]) = net_rows ls @ [r]"
        using Some False by (simp add: net_rows_snoc)
      show ?thesis
      proof (cases "rx r + tx r > best_total st")
        case True
        then have nz: "rx r + tx r \<noteq> 0" by (metis word_not_simps(1))
        have "\<forall>x\<in>set (net_rows ls). rx x + tx x \<le> rx r + tx r"
          using inv True unfolding net_inv_def by auto
        then show ?thesis unfolding step rows using True inv nz
          by (auto simp: net_inv_def)
      next
        case False
        then have le: "rx r + tx r \<le> best_total st" by simp
        show ?thesis unfolding step rows using False inv le
          by (auto simp: net_inv_def)
      qed
    qed
  qed
qed


lemma net_rows_no_lo: "''lo'' \<notin> iface ` set (net_rows ls)"
  by (induction ls rule: net_rows.induct) auto

lemma read_network_Some:
  "read_network s e (Some ls) =
     (s\<lparr>prev_net := cur_net (foldl (net_line (prev_net s) e)
                                 \<lparr>cur_net = [], best = net_none, best_total = 0\<rparr> ls)\<rparr>,
      best (foldl (net_line (prev_net s) e) \<lparr>cur_net = [], best = net_none, best_total = 0\<rparr> ls))"
  by (simp add: read_network_def Let_def)

lemma read_network_best:
  "if \<forall>r\<in>set (net_rows ls). rx r + tx r = 0
   then snd (read_network s e (Some ls)) = net_none
   else \<exists>r\<in>set (net_rows ls). snd (read_network s e (Some ls)) = net_snap (prev_net s) e r
          \<and> (\<forall>r'\<in>set (net_rows ls). rx r' + tx r' \<le> rx r + tx r)"
proof -
  define st where "st = foldl (net_line (prev_net s) e)
      \<lparr>cur_net = [], best = net_none, best_total = 0\<rparr> ls"
  have inv: "net_inv (prev_net s) e (net_rows ls) st"
    unfolding st_def by (rule net_loop_inv)
  have b: "snd (read_network s e (Some ls)) = best st"
    by (simp add: read_network_Some st_def)
  show ?thesis
  proof (cases "best_total st = 0")
    case True
    then have "\<forall>r\<in>set (net_rows ls). rx r + tx r = 0" using inv by (auto simp: net_inv_def)
    moreover have "best st = net_none" using True inv by (simp add: net_inv_def)
    ultimately show ?thesis by (simp add: b)
  next
    case False
    then obtain r where r: "r \<in> set (net_rows ls)" "best st = net_snap (prev_net s) e r"
        "best_total st = rx r + tx r"
      using inv by (auto simp: net_inv_def)
    have mx: "\<forall>r'\<in>set (net_rows ls). rx r' + tx r' \<le> rx r + tx r"
      using inv r(3) by (simp add: net_inv_def)
    have "\<not> (\<forall>r\<in>set (net_rows ls). rx r + tx r = 0)" using r False by auto
    then show ?thesis using r mx by (auto simp: b)
  qed
qed

lemma read_network_rates_nonneg:
  assumes "0 < e"
  shows "0 \<le> rx_rate (snd (read_network s e f)) \<and> 0 \<le> tx_rate (snd (read_network s e f))"
proof (cases f)
  case None
  then show ?thesis by (simp add: read_network_def net_none_def)
next
  case (Some ls)
  show ?thesis
  proof (cases "\<forall>r\<in>set (net_rows ls). rx r + tx r = 0")
    case True
    with read_network_best[of ls s e] have "snd (read_network s e (Some ls)) = net_none" by simp
    then show ?thesis using Some by (simp add: net_none_def)
  next
    case False
    with read_network_best[of ls s e]
    obtain r where "snd (read_network s e (Some ls)) = net_snap (prev_net s) e r" by auto
    then show ?thesis using Some iface_rates_nonneg[OF assms, of "prev_net s" r]
      by (simp add: net_snap_def)
  qed
qed

lemma elapsed_of_pos: "0 < elapsed_of t t0"
proof -
  have "(0::real) < rnd (1 / 1000)" by (rule rnd_pos) simp
  then show ?thesis by (simp add: elapsed_of_def Let_def)
qed

lemma sample_out_net:
  "out_net (snd (snd (sample s gst m flt w))) =
     snd (read_network (s\<lparr>last_sample := now w\<rparr>) (elapsed_of (now w) (last_sample s)) (net_dev w))"
  by (simp add: sample_unfold Let_def split: option.splits)

text \<open>
  Claim C6, as amended. For a positive \<open>elapsed\<close>, \<^verbatim>\<open>read_network\<close> keeps exactly the
  converted rows other than \<^verbatim>\<open>lo\<close> as the new table; an interface without an entry in the
  previous table has both rates 0; no rate is negative, for any row and for the snapshot
  returned, counter resets included; and the snapshot returned is that of a row other
  than \<^verbatim>\<open>lo\<close> whose 64-bit sum \<open>rx + tx\<close> is the greatest, provided some such row has a
  sum other than 0, and else the placeholder \<^verbatim>\<open>-\<close> with rates 0. \<^verbatim>\<open>sample\<close> always passes
  a positive \<open>elapsed\<close>, so the rates it reports are never negative.
\<close>

theorem read_network_snapshot:
  assumes "0 < elapsed"
  shows "prev_net (fst (read_network s elapsed (Some ls))) = net_rows ls
    \<and> ''lo'' \<notin> iface ` set (net_rows ls)
    \<and> (\<forall>r. find_prev_net (prev_net s) (iface r) = None
            \<longrightarrow> iface_rates (prev_net s) elapsed r = (0, 0))
    \<and> (\<forall>r. 0 \<le> fst (iface_rates (prev_net s) elapsed r)
            \<and> 0 \<le> snd (iface_rates (prev_net s) elapsed r))
    \<and> 0 \<le> rx_rate (snd (read_network s elapsed f))
    \<and> 0 \<le> tx_rate (snd (read_network s elapsed f))
    \<and> (if \<forall>r\<in>set (net_rows ls). rx r + tx r = 0
        then snd (read_network s elapsed (Some ls)) = net_none
        else \<exists>r\<in>set (net_rows ls).
               snd (read_network s elapsed (Some ls)) = net_snap (prev_net s) elapsed r
               \<and> (\<forall>r'\<in>set (net_rows ls). rx r' + tx r' \<le> rx r + tx r))
    \<and> 0 \<le> rx_rate (out_net (snd (snd (sample s0 gst m flt w))))
    \<and> 0 \<le> tx_rate (out_net (snd (snd (sample s0 gst m flt w))))"
proof -
  have a: "prev_net (fst (read_network s elapsed (Some ls))) = net_rows ls"
    using net_loop_inv[of "prev_net s" elapsed ls] by (simp add: read_network_Some net_inv_def)
  have b: "\<forall>r. find_prev_net (prev_net s) (iface r) = None
            \<longrightarrow> iface_rates (prev_net s) elapsed r = (0, 0)"
    by (simp add: iface_rates_first_sight)
  have c: "\<forall>r. 0 \<le> fst (iface_rates (prev_net s) elapsed r)
            \<and> 0 \<le> snd (iface_rates (prev_net s) elapsed r)"
    using iface_rates_nonneg[OF assms] by blast
  note d = read_network_rates_nonneg[OF assms, of s f]
  note e = read_network_best[of ls s elapsed]
  have f: "0 \<le> rx_rate (out_net (snd (snd (sample s0 gst m flt w))))
    \<and> 0 \<le> tx_rate (out_net (snd (snd (sample s0 gst m flt w))))"
    unfolding sample_out_net by (rule read_network_rates_nonneg[OF elapsed_of_pos])
  from a net_rows_no_lo[of ls] b c d e f show ?thesis by (simp only: simp_thms)
qed


lemmas net_eval = read_network_def net_line_def iface_rates_def net_none_def net_snap_def

lemma read_network_later:
  "snd (read_network sampler_net 1 (Some net_dev_later)) =
     \<lparr>net_iface = ''eth0'', rx_rate = 1024000, tx_rate = 0\<rparr>"
  by (simp add: net_eval net_dev_later_def sampler_net_def Let_def dbl_eval)

theorem read_network_snapshot_witness:
  "(0 :: double) < 1
   \<and> prev_net (fst (read_network sampler_net 1 (Some net_dev_later))) =
       [\<lparr>iface = ''eth0'', rx = 2024000, tx = 400000\<rparr>, \<lparr>iface = ''wlan0'', rx = 70000, tx = 30000\<rparr>]
   \<and> iface_rates (prev_net sampler_net) 1 \<lparr>iface = ''wlan0'', rx = 70000, tx = 30000\<rparr> = (0, 0)
   \<and> snd (read_network sampler_net 1 (Some net_dev_later)) =
       \<lparr>net_iface = ''eth0'', rx_rate = 1024000, tx_rate = 0\<rparr>"
proof -
  have pos: "(0 :: double) < 1" by simp
  note th = read_network_snapshot[OF pos, of sampler_net net_dev_later "Some net_dev_later"]
  have rows: "net_rows net_dev_later =
      [\<lparr>iface = ''eth0'', rx = 2024000, tx = 400000\<rparr>, \<lparr>iface = ''wlan0'', rx = 70000, tx = 30000\<rparr>]"
    by (simp add: net_dev_later_def)
  have a: "prev_net (fst (read_network sampler_net 1 (Some net_dev_later))) = net_rows net_dev_later"
    using th by blast
  have "find_prev_net (prev_net sampler_net) (iface \<lparr>iface = ''wlan0'', rx = 70000, tx = 30000\<rparr>) = None"
    by (simp add: sampler_net_def)
  moreover have "\<forall>r. find_prev_net (prev_net sampler_net) (iface r) = None
            \<longrightarrow> iface_rates (prev_net sampler_net) 1 r = (0, 0)"
    using th by blast
  ultimately have b: "iface_rates (prev_net sampler_net) 1 \<lparr>iface = ''wlan0'', rx = 70000, tx = 30000\<rparr>
      = (0, 0)" by blast
  from pos a rows b read_network_later show ?thesis by simp
qed

text \<open>
  The claim as stated returns the interface with the greatest total also when that total
  is 0. With \<^verbatim>\<open>eth0\<close> as the only interface besides \<^verbatim>\<open>lo\<close> and no traffic on it yet, the
  snapshot keeps the placeholder name.
\<close>

theorem read_network_idle_interface:
  "net_rows net_dev_idle = [\<lparr>iface = ''eth0'', rx = 0, tx = 0\<rparr>]
   \<and> snd (read_network sampler0 1 (Some net_dev_idle)) =
       \<lparr>net_iface = ''-'', rx_rate = 0, tx_rate = 0\<rparr>"
  by (simp add: net_eval net_dev_idle_def world_eval sampler_create_def Let_def)

subsection \<open>The cache of read_gpu\<close>

lemma read_gpu_hit:
  "ms_diff (gpu_now w) (last_gpu_read st) < 800 \<Longrightarrow> tv_sec (last_gpu_read st) \<noteq> 0 \<Longrightarrow>
   read_gpu s st mem w = (s, st, cached_gpu st)"
  by (simp add: read_gpu_def)

lemma read_gpu_miss:
  "\<not> (ms_diff (gpu_now w) (last_gpu_read st) < 800 \<and> tv_sec (last_gpu_read st) \<noteq> 0) \<Longrightarrow>
   read_gpu s st mem w =
     (s\<lparr>v3d_stats := fst (gpu_probe (v3d_stats s) mem w)\<rparr>,
      \<lparr>cached_gpu = snd (gpu_probe (v3d_stats s) mem w), last_gpu_read = gpu_now w\<rparr>,
      snd (gpu_probe (v3d_stats s) mem w))"
  by (auto simp: read_gpu_def Let_def)

text \<open>
  Claim C8, as amended. The cache is timed from the last probe, not from the last call.
  When a call of \<^verbatim>\<open>read_gpu\<close> has probed (its cache test failed) at a time with a non-zero
  \<^verbatim>\<open>tv_sec\<close>, every later call whose millisecond difference to that probe, as the code
  computes it, is below 800 returns the snapshot of the probe, name included, and leaves
  the sampler and the static state as they are, whatever the backends and the memory
  snapshot hold at that moment: no backend is consulted.
\<close>

theorem read_gpu_cached_after_probe:
  assumes "\<not> (ms_diff (gpu_now w1) (last_gpu_read st) < 800 \<and> tv_sec (last_gpu_read st) \<noteq> 0)"
    and "read_gpu s st mem1 w1 = (s1, st1, g1)"
    and "tv_sec (gpu_now w1) \<noteq> 0"
    and "ms_diff (gpu_now w2) (gpu_now w1) < 800"
  shows "g1 = snd (gpu_probe (v3d_stats s) mem1 w1)
       \<and> last_gpu_read st1 = gpu_now w1 \<and> cached_gpu st1 = g1
       \<and> read_gpu s1 st1 mem2 w2 = (s1, st1, g1)"
proof -
  from assms(2)[unfolded read_gpu_miss[OF assms(1)]]
  have st1: "st1 = \<lparr>cached_gpu = snd (gpu_probe (v3d_stats s) mem1 w1), last_gpu_read = gpu_now w1\<rparr>"
    and g1: "g1 = snd (gpu_probe (v3d_stats s) mem1 w1)" by auto
  have l: "last_gpu_read st1 = gpu_now w1" and c: "cached_gpu st1 = g1" by (simp_all add: st1 g1)
  have "read_gpu s1 st1 mem2 w2 = (s1, st1, cached_gpu st1)"
    by (rule read_gpu_hit) (use assms(3,4) l in simp_all)
  with g1 l c show ?thesis by simp
qed

lemma gpu_call1_eval:
  "gpu_call1 = (sampler0, \<lparr>cached_gpu = gpu_init, last_gpu_read = \<lparr>tv_sec = 10, tv_usec = 0\<rparr>\<rparr>, gpu_init)"
  by (simp add: gpu_call1_def gw_first_def gpu_eval world_eval sampler_create_def zero_mem_def Let_def)

lemma gpu_call2_eval:
  "gpu_call2 = (sampler0, \<lparr>cached_gpu = gpu_init, last_gpu_read = \<lparr>tv_sec = 10, tv_usec = 0\<rparr>\<rparr>, gpu_init)"
  by (simp add: gpu_call2_def gpu_call1_eval gw_second_def read_gpu_def ms_diff_def
      signed_divide_int_def world_eval)

lemma gpu_call3_eval:
  "snd (snd gpu_call3) = \<lparr>gpu_name = ''NVIDIA GPU'', usage = 35, mem_used = 1073741824,
     mem_total = 8589934592, temp = 61, has_usage = True, has_mem = True, has_temp = True\<rparr>"
  by (simp add: gpu_call3_def gpu_call2_eval gw_third_def gw_second_def gpu_eval world_eval
      zero_mem_def Let_def)

theorem read_gpu_cached_after_probe_witness:
  "tv_sec (gpu_now gw_first) \<noteq> 0
   \<and> ms_diff (gpu_now gw_second) (gpu_now gw_first) = 700
   \<and> gpu_call2 = (fst gpu_call1, fst (snd gpu_call1), snd (snd gpu_call1))
   \<and> gpu_name (snd (snd gpu_call2)) = ''GPU''"
proof -
  have a: "\<not> (ms_diff (gpu_now gw_first) (last_gpu_read gpu_static_init) < 800
            \<and> tv_sec (last_gpu_read gpu_static_init) \<noteq> 0)"
    by (simp add: gpu_static_init_def)
  have b: "read_gpu sampler0 gpu_static_init zero_mem gw_first
      = (fst gpu_call1, fst (snd gpu_call1), snd (snd gpu_call1))"
    by (simp add: gpu_call1_def)
  have c: "tv_sec (gpu_now gw_first) \<noteq> 0" by (simp add: gw_first_def)
  have d: "ms_diff (gpu_now gw_second) (gpu_now gw_first) = 700"
    by (simp add: gw_first_def gw_second_def ms_diff_def signed_divide_int_def)
  then have d': "ms_diff (gpu_now gw_second) (gpu_now gw_first) < 800" by simp
  from read_gpu_cached_after_probe[OF a b c d', of zero_mem]
  have "read_gpu (fst gpu_call1) (fst (snd gpu_call1)) zero_mem gw_second
      = (fst gpu_call1, fst (snd gpu_call1), snd (snd gpu_call1))"
    by blast
  then have "gpu_call2 = (fst gpu_call1, fst (snd gpu_call1), snd (snd gpu_call1))"
    by (simp only: gpu_call2_def)
  moreover have "gpu_name (snd (snd gpu_call2)) = ''GPU''"
    by (simp add: gpu_call2_eval gpu_init_def)
  ultimately show ?thesis using c d by simp
qed

text \<open>
  The claim as stated compares any two calls less than 800 ms apart. After a probe at
  10.0 s that finds nothing, the call at 10.7 s returns the cached snapshot named
  \<^verbatim>\<open>GPU\<close>, and the call at 10.9 s, 200 ms later, is 900 ms past the probe, probes again
  and returns \<^verbatim>\<open>NVIDIA GPU\<close>. The code's difference also truncates the microseconds
  towards zero: from 5.2005 s to 6.0 s, 799.5 ms apart, it is 800.
\<close>

theorem read_gpu_two_calls_differ:
  "ms_diff (gpu_now gw_third) (gpu_now gw_second) = 200
   \<and> gpu_name (snd (snd gpu_call2)) = ''GPU''
   \<and> gpu_name (snd (snd gpu_call3)) = ''NVIDIA GPU''
   \<and> ms_diff \<lparr>tv_sec = 6, tv_usec = 0\<rparr> \<lparr>tv_sec = 5, tv_usec = 200500\<rparr> = 800"
  by (simp add: gpu_call2_eval gpu_call3_eval gpu_init_def gw_third_def gw_second_def ms_diff_def
      signed_divide_int_def)

subsection \<open>The V3D queues of gpu_stats\<close>

lemma find_queue_Some: "find_queue t n = Some i \<Longrightarrow> i < length t \<and> queue (t ! i) = n"
  by (induction t arbitrary: i) (auto split: if_splits)

lemma find_queue_append:
  "find_queue (t @ [e]) n = (case find_queue t n of Some i \<Rightarrow> Some i
     | None \<Rightarrow> if queue e = n then Some (length t) else None)"
  by (induction t) (auto split: option.splits)

lemma find_queue_update:
  "i < length t \<Longrightarrow> queue e = queue (t ! i) \<Longrightarrow> find_queue (t[i := e]) n = find_queue t n"
proof (induction t arbitrary: i)
  case Nil
  then show ?case by simp
next
  case (Cons a t)
  then show ?case by (cases i) auto
qed

lemma V3dStats_upd:
  "queue e = n \<Longrightarrow> e\<lparr>last_ts := a, last_rt := b\<rparr> = \<lparr>queue = n, last_ts = a, last_rt = b\<rparr>"
  by (cases e) simp

lemma v3d_line_new:
  "find_queue cur (q_name r) = None \<Longrightarrow>
   v3d_line (cur, g) (Some r) =
     (if length cur < 16 then cur @ [\<lparr>queue = q_name r, last_ts = ts r, last_rt = rt r\<rparr>] else cur, g)"
  by (simp add: v3d_line_def)

lemma v3d_line_known:
  "find_queue cur (q_name r) = Some i \<Longrightarrow>
   v3d_line (cur, g) (Some r) =
     (cur[i := \<lparr>queue = q_name r, last_ts = ts r, last_rt = rt r\<rparr>],
      if last_ts (cur ! i) < ts r
      then g\<lparr>usage := max (usage g) (queue_usage (cur ! i) r), has_usage := True\<rparr>
      else g)"
  using find_queue_Some[of cur "q_name r" i]
  by (auto simp: v3d_line_def Let_def max_def V3dStats_upd)

lemma v3d_lines_rows: "v3d_lines tbl g ls = foldl (\<lambda>st r. v3d_line st (Some r)) (tbl, g) (v3d_rows ls)"
proof -
  have "foldl v3d_line st ls = foldl (\<lambda>st r. v3d_line st (Some r)) st (v3d_rows ls)" for st
    by (induction ls arbitrary: st rule: v3d_rows.induct) (simp_all add: v3d_line_def)
  then show ?thesis by (simp add: v3d_lines_def)
qed

lemma v3d_line_length: "length (fst st) \<le> 16 \<Longrightarrow> length (fst (v3d_line st l)) \<le> 16"
  by (auto simp: v3d_line_def Let_def split: option.splits)

lemma v3d_lines_length: "length tbl \<le> 16 \<Longrightarrow> length (fst (v3d_lines tbl g ls)) \<le> 16"
proof -
  have "length (fst st) \<le> 16 \<Longrightarrow> length (fst (foldl v3d_line st ls)) \<le> 16" for st
    by (induction ls arbitrary: st) (simp_all add: v3d_line_length)
  from this[of "(tbl, g)"] show "length tbl \<le> 16 \<Longrightarrow> length (fst (v3d_lines tbl g ls)) \<le> 16"
    by (simp add: v3d_lines_def)
qed

lemma find_queue_None_iff: "find_queue t n = None \<longleftrightarrow> n \<notin> set (map queue t)"
  by (induction t) auto

lemma first_seen_snoc:
  "first_seen (xs @ [x]) = (if x \<in> set xs then first_seen xs else first_seen xs @ [x])"
  by (simp add: first_seen_def)

lemma first_seen_snoc_in: "x \<in> set xs \<Longrightarrow> first_seen (xs @ [x]) = first_seen xs"
  by (simp add: first_seen_def)

lemma first_seen_snoc_notin: "x \<notin> set xs \<Longrightarrow> first_seen (xs @ [x]) = first_seen xs @ [x]"
  by (simp add: first_seen_def)

lemma set_first_seen: "set (first_seen xs) = set xs"
  by (simp add: first_seen_def)

lemma distinct_first_seen: "distinct (first_seen xs)"
  by (simp add: first_seen_def)

lemma first_seen_distinct: "distinct xs \<Longrightarrow> first_seen xs = xs"
  by (simp add: first_seen_def distinct_remdups_id)

lemma distinct_tracked: "distinct (tracked tbl rs)"
  by (simp add: tracked_def distinct_first_seen)

lemma length_tracked: "length (tracked tbl rs) \<le> 16"
  by (simp add: tracked_def)

lemma tracked_Nil: "distinct (map queue tbl) \<Longrightarrow> length tbl \<le> 16 \<Longrightarrow> tracked tbl [] = map queue tbl"
  by (simp add: tracked_def first_seen_distinct)

lemma tracked_snoc_known:
  assumes "q_name r \<in> set (tracked tbl rs)"
  shows "tracked tbl (rs @ [r]) = tracked tbl rs"
proof -
  have "q_name r \<in> set (first_seen (map queue tbl @ map q_name rs))"
    using assms unfolding tracked_def by (rule in_set_takeD)
  then have "q_name r \<in> set (map queue tbl @ map q_name rs)" by (simp only: set_first_seen)
  then have "first_seen ((map queue tbl @ map q_name rs) @ [q_name r])
      = first_seen (map queue tbl @ map q_name rs)"
    by (rule first_seen_snoc_in)
  then show ?thesis by (simp add: tracked_def)
qed

lemma tracked_snoc_new:
  assumes "q_name r \<notin> set (tracked tbl rs)" and "length (tracked tbl rs) < 16"
  shows "tracked tbl (rs @ [r]) = tracked tbl rs @ [q_name r]"
proof -
  define F where "F = first_seen (map queue tbl @ map q_name rs)"
  have t: "tracked tbl rs = take 16 F" by (simp add: tracked_def F_def)
  have "length F < 16" using assms(2) unfolding t by simp
  then have tf: "take 16 F = F" by simp
  have "q_name r \<notin> set F" using assms(1) unfolding t tf .
  then have "q_name r \<notin> set (map queue tbl @ map q_name rs)"
    unfolding F_def set_first_seen .
  then have "first_seen ((map queue tbl @ map q_name rs) @ [q_name r]) = F @ [q_name r]"
    unfolding F_def by (rule first_seen_snoc_notin)
  then have "tracked tbl (rs @ [r]) = take 16 (F @ [q_name r])" by (simp add: tracked_def)
  also have "\<dots> = F @ [q_name r]" using \<open>length F < 16\<close> by simp
  finally show ?thesis by (simp add: t tf)
qed

lemma tracked_snoc_full:
  assumes "\<not> length (tracked tbl rs) < 16"
  shows "tracked tbl (rs @ [r]) = tracked tbl rs"
proof -
  define F where "F = first_seen (map queue tbl @ map q_name rs)"
  have t: "tracked tbl rs = take 16 F" by (simp add: tracked_def F_def)
  have l: "16 \<le> length F" using assms unfolding t by simp
  have "first_seen ((map queue tbl @ map q_name rs) @ [q_name r]) = F
      \<or> first_seen ((map queue tbl @ map q_name rs) @ [q_name r]) = F @ [q_name r]"
    unfolding F_def by (simp only: first_seen_snoc split: if_splits) simp
  then have "take 16 (first_seen ((map queue tbl @ map q_name rs) @ [q_name r])) = take 16 F"
    using l by auto
  then show ?thesis by (simp add: tracked_def F_def)
qed

lemma held_snoc:
  "held tbl (rs @ [r]) n =
     (if n \<in> set (tracked tbl (rs @ [r]))
      then (if q_name r = n then Some \<lparr>queue = n, last_ts = ts r, last_rt = rt r\<rparr>
            else (case find (\<lambda>r. q_name r = n) (rev rs) of
                    Some r \<Rightarrow> Some \<lparr>queue = n, last_ts = ts r, last_rt = rt r\<rparr>
                  | None \<Rightarrow> lookup_queue tbl n))
      else None)"
  by (simp add: held_def)

lemma held_Nil: "distinct (map queue tbl) \<Longrightarrow> length tbl \<le> 16 \<Longrightarrow> held tbl [] n = lookup_queue tbl n"
  by (auto simp: held_def tracked_Nil lookup_queue_def find_queue_None_iff[symmetric]
      simp del: set_map)

lemma lookup_queue_update:
  assumes "find_queue cur m = Some i"
  shows "lookup_queue (cur[i := \<lparr>queue = m, last_ts = a, last_rt = b\<rparr>]) n =
     (if n = m then Some \<lparr>queue = m, last_ts = a, last_rt = b\<rparr> else lookup_queue cur n)"
proof -
  have il: "i < length cur" and qi: "queue (cur ! i) = m" using find_queue_Some[OF assms] by auto
  have keep: "find_queue (cur[i := \<lparr>queue = m, last_ts = a, last_rt = b\<rparr>]) n = find_queue cur n"
    by (rule find_queue_update) (use il qi in simp_all)
  show ?thesis
  proof (cases "n = m")
    case True
    then show ?thesis using keep assms il by (simp add: lookup_queue_def)
  next
    case False
    show ?thesis
    proof (cases "find_queue cur n")
      case None
      then show ?thesis using keep False by (simp add: lookup_queue_def)
    next
      case (Some j)
      have "queue (cur ! j) = n" using find_queue_Some[OF Some] by simp
      then have "j \<noteq> i" using qi False by auto
      then show ?thesis using keep Some False by (simp add: lookup_queue_def)
    qed
  qed
qed

lemma lookup_queue_append:
  assumes "find_queue cur m = None"
  shows "lookup_queue (cur @ [\<lparr>queue = m, last_ts = a, last_rt = b\<rparr>]) n =
     (if n = m then Some \<lparr>queue = m, last_ts = a, last_rt = b\<rparr> else lookup_queue cur n)"
proof (cases "find_queue cur n")
  case None
  then show ?thesis by (auto simp: lookup_queue_def find_queue_append)
next
  case (Some j)
  then have "j < length cur" and "n \<noteq> m" using find_queue_Some[OF Some] assms by auto
  then show ?thesis using Some by (simp add: lookup_queue_def find_queue_append nth_append)
qed

lemma util_at_append: "k < length rs \<Longrightarrow> util_at tbl (rs @ ys) k = util_at tbl rs k"
  by (simp add: util_at_def nth_append split: option.splits)

lemma util_at_last:
  "util_at tbl (rs @ [r]) (length rs) =
     (case held tbl rs (q_name r) of None \<Rightarrow> None
      | Some e \<Rightarrow> if last_ts e < ts r then Some (queue_usage e r) else None)"
  by (simp add: util_at_def split: option.splits)

lemma map_filter_eq:
  "(\<And>x. x \<in> set xs \<Longrightarrow> f x = g x) \<Longrightarrow> List.map_filter f xs = List.map_filter g xs"
  by (induction xs) (auto simp: map_filter_simps split: option.splits)

lemma v3d_utils_from_snoc:
  assumes "j \<le> length rs"
  shows "v3d_utils_from j tbl (rs @ [r]) = v3d_utils_from j tbl rs @
     (case held tbl rs (q_name r) of None \<Rightarrow> []
      | Some e \<Rightarrow> if last_ts e < ts r then [queue_usage e r] else [])"
proof -
  have "[j..<length (rs @ [r])] = [j..<length rs] @ [length rs]" using assms by simp
  then have "v3d_utils_from j tbl (rs @ [r]) =
      List.map_filter (util_at tbl (rs @ [r])) [j..<length rs]
      @ List.map_filter (util_at tbl (rs @ [r])) [length rs]"
    by (simp add: v3d_utils_from_def map_filter_def)
  moreover have "List.map_filter (util_at tbl (rs @ [r])) [j..<length rs]
      = List.map_filter (util_at tbl rs) [j..<length rs]"
    by (rule map_filter_eq) (simp add: util_at_append)
  moreover have "List.map_filter (util_at tbl (rs @ [r])) [length rs] =
     (case held tbl rs (q_name r) of None \<Rightarrow> []
      | Some e \<Rightarrow> if last_ts e < ts r then [queue_usage e r] else [])"
    by (simp add: map_filter_def util_at_last split: option.splits)
  ultimately show ?thesis by (simp add: v3d_utils_from_def)
qed

lemma held_other:
  assumes "q_name r \<noteq> n" and "n \<in> set (tracked tbl (rs @ [r])) \<longleftrightarrow> n \<in> set (tracked tbl rs)"
  shows "held tbl (rs @ [r]) n = held tbl rs n"
  using assms by (simp add: held_snoc held_def)

lemma held_same:
  assumes "q_name r \<in> set (tracked tbl (rs @ [r]))"
  shows "held tbl (rs @ [r]) (q_name r) = Some \<lparr>queue = q_name r, last_ts = ts r, last_rt = rt r\<rparr>"
  using assms by (simp add: held_snoc)

lemma held_untracked: "n \<notin> set (tracked tbl rs) \<Longrightarrow> held tbl rs n = None"
  by (simp add: held_def)

lemma v3d_line_step:
  assumes names: "map queue cur = tracked tbl rs"
    and look: "\<And>n. lookup_queue cur n = held tbl rs n"
    and hu: "has_usage g1 = (has_usage g \<or> v3d_utils_from 0 tbl rs \<noteq> [])"
    and us: "usage g1 = fold max (v3d_utils_from 0 tbl rs) (usage g)"
  shows "map queue (fst (v3d_line (cur, g1) (Some r))) = tracked tbl (rs @ [r])
     \<and> (\<forall>n. lookup_queue (fst (v3d_line (cur, g1) (Some r))) n = held tbl (rs @ [r]) n)
     \<and> has_usage (snd (v3d_line (cur, g1) (Some r)))
         = (has_usage g \<or> v3d_utils_from 0 tbl (rs @ [r]) \<noteq> [])
     \<and> usage (snd (v3d_line (cur, g1) (Some r)))
         = fold max (v3d_utils_from 0 tbl (rs @ [r])) (usage g)"
proof (cases "find_queue cur (q_name r)")
  case None
  have nin: "q_name r \<notin> set (tracked tbl rs)"
    using None unfolding find_queue_None_iff names .
  have h: "held tbl rs (q_name r) = None" using nin by (rule held_untracked)
  have u: "v3d_utils_from 0 tbl (rs @ [r]) = v3d_utils_from 0 tbl rs"
    by (simp add: v3d_utils_from_snoc h)
  have len: "length cur = length (tracked tbl rs)"
    using arg_cong[OF names, of length] by simp
  show ?thesis
  proof (cases "length cur < 16")
    case True
    have step: "v3d_line (cur, g1) (Some r)
        = (cur @ [\<lparr>queue = q_name r, last_ts = ts r, last_rt = rt r\<rparr>], g1)"
      using None True by (simp add: v3d_line_new)
    have tr: "tracked tbl (rs @ [r]) = tracked tbl rs @ [q_name r]"
      using nin True unfolding len by (rule tracked_snoc_new)
    have l: "lookup_queue (cur @ [\<lparr>queue = q_name r, last_ts = ts r, last_rt = rt r\<rparr>]) n
        = held tbl (rs @ [r]) n" for n
    proof (cases "n = q_name r")
      case True
      then show ?thesis using held_same[of r tbl rs] tr
        by (simp add: lookup_queue_append[OF None])
    next
      case False
      have "held tbl (rs @ [r]) n = held tbl rs n"
        by (rule held_other) (use False tr in auto)
      then show ?thesis using False look by (simp add: lookup_queue_append[OF None])
    qed
    show ?thesis unfolding step fst_conv snd_conv u using names tr l hu us by simp
  next
    case False
    have step: "v3d_line (cur, g1) (Some r) = (cur, g1)"
      using None False by (simp add: v3d_line_new)
    have tr: "tracked tbl (rs @ [r]) = tracked tbl rs"
      using False unfolding len by (rule tracked_snoc_full)
    have l: "lookup_queue cur n = held tbl (rs @ [r]) n" for n
    proof (cases "n = q_name r")
      case True
      have "held tbl (rs @ [r]) (q_name r) = None" using nin tr by (simp add: held_untracked)
      then show ?thesis using True look h by simp
    next
      case False
      have "held tbl (rs @ [r]) n = held tbl rs n"
        by (rule held_other) (use False tr in auto)
      then show ?thesis using look by simp
    qed
    show ?thesis unfolding step fst_conv snd_conv u using names tr l hu us by simp
  qed
next
  case (Some i)
  have il: "i < length cur" and qi: "queue (cur ! i) = q_name r"
    using find_queue_Some[OF Some] by auto
  have "q_name r \<in> set (map queue cur)" using il qi by (metis length_map nth_map nth_mem)
  then have mem: "q_name r \<in> set (tracked tbl rs)" using names by simp
  have tr: "tracked tbl (rs @ [r]) = tracked tbl rs" using mem by (rule tracked_snoc_known)
  have h: "held tbl rs (q_name r) = Some (cur ! i)"
    using look[of "q_name r"] Some by (simp add: lookup_queue_def)
  have u: "v3d_utils_from 0 tbl (rs @ [r]) = v3d_utils_from 0 tbl rs @
      (if last_ts (cur ! i) < ts r then [queue_usage (cur ! i) r] else [])"
    by (simp add: v3d_utils_from_snoc h)
  define g2 where "g2 = (if last_ts (cur ! i) < ts r
      then g1\<lparr>usage := max (usage g1) (queue_usage (cur ! i) r), has_usage := True\<rparr> else g1)"
  have step: "v3d_line (cur, g1) (Some r)
      = (cur[i := \<lparr>queue = q_name r, last_ts = ts r, last_rt = rt r\<rparr>], g2)"
    unfolding g2_def using Some by (simp add: v3d_line_known)
  have n: "map queue (cur[i := \<lparr>queue = q_name r, last_ts = ts r, last_rt = rt r\<rparr>])
      = map queue cur"
    using qi by (simp add: map_update list_update_same_conv il)
  have l: "lookup_queue (cur[i := \<lparr>queue = q_name r, last_ts = ts r, last_rt = rt r\<rparr>]) n
      = held tbl (rs @ [r]) n" for n
  proof (cases "n = q_name r")
    case True
    then show ?thesis using held_same[of r tbl rs] tr mem
      by (simp add: lookup_queue_update[OF Some])
  next
    case False
    have "held tbl (rs @ [r]) n = held tbl rs n"
      by (rule held_other) (use False tr in auto)
    then show ?thesis using False look by (simp add: lookup_queue_update[OF Some])
  qed
  have c: "has_usage g2 = (has_usage g \<or> v3d_utils_from 0 tbl (rs @ [r]) \<noteq> [])"
    unfolding u g2_def using hu by auto
  have d: "usage g2 = fold max (v3d_utils_from 0 tbl (rs @ [r])) (usage g)"
    unfolding u g2_def using us by (auto simp: max.commute)
  show ?thesis unfolding step fst_conv snd_conv using n names tr l c d by simp
qed

lemma v3d_fold_spec:
  assumes "distinct (map queue tbl)" and "length tbl \<le> 16"
  shows "map queue (fst (foldl (\<lambda>st r. v3d_line st (Some r)) (tbl, g) rs)) = tracked tbl rs
     \<and> (\<forall>n. lookup_queue (fst (foldl (\<lambda>st r. v3d_line st (Some r)) (tbl, g) rs)) n = held tbl rs n)
     \<and> has_usage (snd (foldl (\<lambda>st r. v3d_line st (Some r)) (tbl, g) rs))
         = (has_usage g \<or> v3d_utils_from 0 tbl rs \<noteq> [])
     \<and> usage (snd (foldl (\<lambda>st r. v3d_line st (Some r)) (tbl, g) rs))
         = fold max (v3d_utils_from 0 tbl rs) (usage g)"
proof (induction rs rule: rev_induct)
  case Nil
  show ?case using assms by (simp add: tracked_Nil held_Nil v3d_utils_from_def map_filter_simps)
next
  case (snoc r rs)
  obtain cur g1 where st: "foldl (\<lambda>st r. v3d_line st (Some r)) (tbl, g) rs = (cur, g1)"
    by (cases "foldl (\<lambda>st r. v3d_line st (Some r)) (tbl, g) rs")
  note I = snoc.IH[unfolded st fst_conv snd_conv]
  have "map queue cur = tracked tbl rs" and "\<And>n. lookup_queue cur n = held tbl rs n"
    and "has_usage g1 = (has_usage g \<or> v3d_utils_from 0 tbl rs \<noteq> [])"
    and "usage g1 = fold max (v3d_utils_from 0 tbl rs) (usage g)"
    using I by blast+
  from v3d_line_step[OF this] show ?case by (simp add: st)
qed

lemma v3d_table_any_snapshot:
  "fst (foldl (\<lambda>st r. v3d_line st (Some r)) (tbl, g) rs)
     = fst (foldl (\<lambda>st r. v3d_line st (Some r)) (tbl, g') rs)"
proof (induction rs rule: rev_induct)
  case Nil
  show ?case by simp
next
  case (snoc r rs)
  have "fst (v3d_line st (Some r)) = fst (v3d_line st' (Some r))" if "fst st = fst st'" for st st'
    using that by (simp add: v3d_line_def Let_def split: option.splits)
  from this[OF snoc.IH] show ?case by simp
qed

lemma d_mul_nonneg: "0 \<le> a \<Longrightarrow> 0 \<le> b \<Longrightarrow> 0 \<le> d_mul a b"
  unfolding d_mul_def by (rule rnd_nonneg) simp

lemma queue_usage_nonneg: "0 \<le> queue_usage e r"
proof -
  have "0 \<le> d_mul (d_of_u64 (rt r - last_rt e)) 100"
    by (rule d_mul_nonneg) (simp_all add: d_of_u64_nonneg)
  then have "0 \<le> d_mul (d_of_u64 (rt r - last_rt e)) 100 / d_of_u64 (ts r - last_ts e)"
    by (simp add: d_of_u64_nonneg)
  then show ?thesis unfolding queue_usage_def d_div_def by (rule rnd_nonneg)
qed

lemma fold_max_nonneg:
  assumes "xs \<noteq> []" "\<forall>x\<in>set xs. (0::real) \<le> x"
  shows "fold max xs 0 = Max (set xs)"
proof -
  have "fold max xs 0 = Max (set (0 # xs))" by (simp only: Max.set_eq_fold)
  also have "\<dots> = max 0 (Max (set xs))" using assms(1) by simp
  also have "\<dots> = Max (set xs)"
  proof -
    from assms(1) obtain x where x: "x \<in> set xs" by (cases xs) auto
    then have "0 \<le> x" using assms(2) by blast
    also have "x \<le> Max (set xs)" using x by simp
    finally show ?thesis by simp
  qed
  finally show ?thesis .
qed

lemma queue_usage_no_wrap:
  assumes "last_rt e \<le> rt r" "last_ts e < ts r"
  shows "queue_usage e r = d_div (d_mul (rnd (real (unat (rt r) - unat (last_rt e)))) 100)
                                 (rnd (real (unat (ts r) - unat (last_ts e))))"
proof -
  have "unat (rt r - last_rt e) = unat (rt r) - unat (last_rt e)"
    using assms(1) by (rule unat_sub)
  moreover have "unat (ts r - last_ts e) = unat (ts r) - unat (last_ts e)"
    using assms(2) by (intro unat_sub) simp
  ultimately show ?thesis by (simp only: queue_usage_def d_of_u64_def)
qed

lemma tail_usage [simp]:
  "usage (videocore_vram mem x) = usage x" "has_usage (videocore_vram mem x) = has_usage x"
  "usage (vram c x) = usage x" "has_usage (vram c x) = has_usage x"
  "usage (read_tz0 tz x) = usage x" "has_usage (read_tz0 tz x) = has_usage x"
  "usage (hwmon_temp c x) = usage x" "has_usage (hwmon_temp c x) = has_usage x"
  "usage (vendor_name c x) = usage x" "has_usage (vendor_name c x) = has_usage x"
  by (simp_all add: videocore_vram_def vram_def hwmon_temp_def vendor_name_def read_tz0_def Let_def
      split: option.splits)

lemma drm_card_step_alt:
  "drm_card_step tbl g mem tz c =
     (let r = (case first_some (take 4 (usage_files c)) of
                 Some u \<Rightarrow> (tbl, g\<lparr>usage := u, has_usage := True\<rparr>)
               | None \<Rightarrow> (case stats_file c of None \<Rightarrow> (tbl, g)
                          | Some ls \<Rightarrow> v3d_lines tbl g ls));
          g2 = hwmon_temp c (vendor_name c (snd r));
          g3 = (if has_temp g2 then g2 else read_tz0 tz g2)
      in (fst r, videocore_vram mem (vram c g3)))"
  by (simp add: drm_card_step_def Let_def case_prod_beta)

lemma drm_card_step_v3d:
  assumes "first_some (take 4 (usage_files c)) = None" and "stats_file c = Some ls"
  shows "fst (drm_card_step tbl g mem tz c) = fst (v3d_lines tbl g ls)
    \<and> usage (snd (drm_card_step tbl g mem tz c)) = usage (snd (v3d_lines tbl g ls))
    \<and> has_usage (snd (drm_card_step tbl g mem tz c)) = has_usage (snd (v3d_lines tbl g ls))"
  using assms by (simp add: drm_card_step_alt Let_def)

lemma drm_card_step_length:
  "length tbl \<le> 16 \<Longrightarrow> length (fst (drm_card_step tbl g mem tz c)) \<le> 16"
  by (simp add: drm_card_step_alt Let_def v3d_lines_length split: option.splits)

lemma drm_cards_length:
  "length tbl \<le> 16 \<Longrightarrow> length (fst (drm_cards tbl g mem tz cs)) \<le> 16"
proof (induction cs arbitrary: tbl g)
  case Nil
  then show ?case by simp
next
  case (Cons c cs)
  have "length (fst (drm_card_step tbl g mem tz c)) \<le> 16"
    using Cons.prems by (rule drm_card_step_length)
  then show ?case using Cons by (simp add: Let_def)
qed

lemma gpu_probe_length: "length tbl \<le> 16 \<Longrightarrow> length (fst (gpu_probe tbl mem w)) \<le> 16"
proof -
  assume a: "length tbl \<le> 16"
  have "length (fst (case drm w of None \<Rightarrow> (tbl, gpu_init)
                  | Some cs \<Rightarrow> drm_cards tbl gpu_init mem (thermal_zone0 w) cs)) \<le> 16"
    using a by (simp add: drm_cards_length split: option.splits)
  then show ?thesis using a
    by (simp add: gpu_probe_def Let_def split: option.splits)
qed

lemma read_gpu_length:
  "length (v3d_stats s) \<le> 16 \<Longrightarrow> length (v3d_stats (fst (read_gpu s st mem w))) \<le> 16"
  by (simp add: read_gpu_def Let_def gpu_probe_length)

lemma v3d_table_inv:
  assumes "distinct (map queue tbl)" and "length tbl \<le> 16"
  shows "distinct (map queue (fst (foldl (\<lambda>st r. v3d_line st (Some r)) (tbl, g) rs)))
     \<and> length (fst (foldl (\<lambda>st r. v3d_line st (Some r)) (tbl, g) rs)) \<le> 16"
proof -
  have n: "map queue (fst (foldl (\<lambda>st r. v3d_line st (Some r)) (tbl, g) rs)) = tracked tbl rs"
    using v3d_fold_spec[OF assms] by blast
  have "length (fst (foldl (\<lambda>st r. v3d_line st (Some r)) (tbl, g) rs)) = length (tracked tbl rs)"
    using arg_cong[OF n, of length] by simp
  then have "length (fst (foldl (\<lambda>st r. v3d_line st (Some r)) (tbl, g) rs)) \<le> 16"
    using length_tracked[of tbl rs] by simp
  moreover have "distinct (map queue (fst (foldl (\<lambda>st r. v3d_line st (Some r)) (tbl, g) rs)))"
    unfolding n by (rule distinct_tracked)
  ultimately show ?thesis by simp
qed

lemma v3d_after:
  assumes "distinct (map queue tbl)" and "length tbl \<le> 16"
  shows "tracked (fst (foldl (\<lambda>st r. v3d_line st (Some r)) (tbl, g) rs1)) pre
           = tracked tbl (rs1 @ pre)
     \<and> held (fst (foldl (\<lambda>st r. v3d_line st (Some r)) (tbl, g) rs1)) pre n
           = held tbl (rs1 @ pre) n"
proof -
  obtain T1 g1 where st: "foldl (\<lambda>st r. v3d_line st (Some r)) (tbl, g) rs1 = (T1, g1)"
    by (cases "foldl (\<lambda>st r. v3d_line st (Some r)) (tbl, g) rs1")
  have inv: "distinct (map queue T1)" "length T1 \<le> 16"
    using v3d_table_inv[OF assms, of g rs1] by (simp_all add: st)
  have cat: "foldl (\<lambda>st r. v3d_line st (Some r)) (tbl, g) (rs1 @ pre)
      = foldl (\<lambda>st r. v3d_line st (Some r)) (T1, g1) pre"
    by (simp add: st)
  have a: "map queue (fst (foldl (\<lambda>st r. v3d_line st (Some r)) (T1, g1) pre)) = tracked T1 pre"
    and b: "lookup_queue (fst (foldl (\<lambda>st r. v3d_line st (Some r)) (T1, g1) pre)) n = held T1 pre n"
    using v3d_fold_spec[OF inv, of g1 pre] by blast+
  have c: "map queue (fst (foldl (\<lambda>st r. v3d_line st (Some r)) (T1, g1) pre))
        = tracked tbl (rs1 @ pre)"
    and d: "lookup_queue (fst (foldl (\<lambda>st r. v3d_line st (Some r)) (T1, g1) pre)) n
        = held tbl (rs1 @ pre) n"
    using v3d_fold_spec[OF assms, of g "rs1 @ pre"] unfolding cat by blast+
  show ?thesis using a b c d by (simp add: st)
qed

lemma util_at_after:
  assumes "distinct (map queue tbl)" and "length tbl \<le> 16" and "k < length rs2"
  shows "util_at (fst (foldl (\<lambda>st r. v3d_line st (Some r)) (tbl, g) rs1)) rs2 k
     = util_at tbl (rs1 @ rs2) (length rs1 + k)"
  using v3d_after[OF assms(1,2), of g rs1 "take k rs2" "q_name (rs2 ! k)"] assms(3)
  by (simp add: util_at_def nth_append_length_plus split: option.splits)

lemma map_filter_map: "List.map_filter f (map h xs) = List.map_filter (\<lambda>x. f (h x)) xs"
  by (induction xs) (auto simp: map_filter_simps split: option.splits)

lemma v3d_utils_after:
  assumes "distinct (map queue tbl)" and "length tbl \<le> 16"
  shows "v3d_utils_from 0 (fst (foldl (\<lambda>st r. v3d_line st (Some r)) (tbl, g) rs1)) rs2
     = v3d_utils_from (length rs1) tbl (rs1 @ rs2)"
proof -
  have "[length rs1..<length (rs1 @ rs2)] = map (\<lambda>k. length rs1 + k) [0..<length rs2]"
    using map_add_upt[of "length rs1" "length rs2"] by (simp add: add.commute)
  then have "v3d_utils_from (length rs1) tbl (rs1 @ rs2)
      = List.map_filter (\<lambda>k. util_at tbl (rs1 @ rs2) (length rs1 + k)) [0..<length rs2]"
    by (simp only: v3d_utils_from_def map_filter_map)
  also have "\<dots> = List.map_filter
      (util_at (fst (foldl (\<lambda>st r. v3d_line st (Some r)) (tbl, g) rs1)) rs2) [0..<length rs2]"
    by (rule map_filter_eq) (simp add: util_at_after[OF assms])
  finally show ?thesis by (simp add: v3d_utils_from_def)
qed

lemma v3d_utils_from_nonneg: "x \<in> set (v3d_utils_from j tbl rs) \<Longrightarrow> 0 \<le> x"
  by (auto simp: v3d_utils_from_def map_filter_def util_at_def queue_usage_nonneg
      split: option.splits if_splits)

lemma v3d_usage_max:
  assumes "usage g = 0" and "\<not> has_usage g"
    and "has_usage g' = (has_usage g \<or> us \<noteq> [])" and "usage g' = fold max us (usage g)"
    and "\<And>x. x \<in> set us \<Longrightarrow> 0 \<le> x"
  shows "has_usage g' = (us \<noteq> []) \<and> (has_usage g' \<longrightarrow> usage g' = Max (set us))"
  using assms fold_max_nonneg[of us] by auto

lemma v3d_probe:
  assumes "first_some (take 4 (usage_files c)) = None" and "stats_file c = Some ls"
    and "distinct (map queue tbl)" and "length tbl \<le> 16"
    and "usage g = 0" and "\<not> has_usage g"
  shows "fst (drm_card_step tbl g mem tz c)
           = fst (foldl (\<lambda>st r. v3d_line st (Some r)) (tbl, g') (v3d_rows ls))"
    and "map queue (fst (drm_card_step tbl g mem tz c)) = tracked tbl (v3d_rows ls)"
    and "lookup_queue (fst (drm_card_step tbl g mem tz c)) n = held tbl (v3d_rows ls) n"
    and "has_usage (snd (drm_card_step tbl g mem tz c)) = (v3d_utils_from 0 tbl (v3d_rows ls) \<noteq> [])"
    and "has_usage (snd (drm_card_step tbl g mem tz c)) \<longrightarrow>
         usage (snd (drm_card_step tbl g mem tz c)) = Max (set (v3d_utils_from 0 tbl (v3d_rows ls)))"
    and "distinct (map queue (fst (drm_card_step tbl g mem tz c)))"
    and "length (fst (drm_card_step tbl g mem tz c)) \<le> 16"
proof -
  let ?F = "foldl (\<lambda>st r. v3d_line st (Some r)) (tbl, g) (v3d_rows ls)"
  note step = drm_card_step_v3d[OF assms(1,2), of tbl g mem tz, unfolded v3d_lines_rows]
  have f: "fst (drm_card_step tbl g mem tz c) = fst ?F"
    and u: "usage (snd (drm_card_step tbl g mem tz c)) = usage (snd ?F)"
    and h: "has_usage (snd (drm_card_step tbl g mem tz c)) = has_usage (snd ?F)"
    using step by blast+
  note spec = v3d_fold_spec[OF assms(3,4), of g "v3d_rows ls"]
  show "fst (drm_card_step tbl g mem tz c)
           = fst (foldl (\<lambda>st r. v3d_line st (Some r)) (tbl, g') (v3d_rows ls))"
    unfolding f by (rule v3d_table_any_snapshot)
  show "map queue (fst (drm_card_step tbl g mem tz c)) = tracked tbl (v3d_rows ls)"
    unfolding f using spec by blast
  show "lookup_queue (fst (drm_card_step tbl g mem tz c)) n = held tbl (v3d_rows ls) n"
    unfolding f using spec by blast
  have hu: "has_usage (snd ?F) = (has_usage g \<or> v3d_utils_from 0 tbl (v3d_rows ls) \<noteq> [])"
    and us: "usage (snd ?F) = fold max (v3d_utils_from 0 tbl (v3d_rows ls)) (usage g)"
    using spec by blast+
  have m: "has_usage (snd ?F) = (v3d_utils_from 0 tbl (v3d_rows ls) \<noteq> [])
      \<and> (has_usage (snd ?F) \<longrightarrow> usage (snd ?F) = Max (set (v3d_utils_from 0 tbl (v3d_rows ls))))"
    by (rule v3d_usage_max[OF assms(5,6) hu us]) (rule v3d_utils_from_nonneg)
  show "has_usage (snd (drm_card_step tbl g mem tz c)) = (v3d_utils_from 0 tbl (v3d_rows ls) \<noteq> [])"
    unfolding h using m by blast
  show "has_usage (snd (drm_card_step tbl g mem tz c)) \<longrightarrow>
         usage (snd (drm_card_step tbl g mem tz c)) = Max (set (v3d_utils_from 0 tbl (v3d_rows ls)))"
    unfolding h u using m by blast
  show "distinct (map queue (fst (drm_card_step tbl g mem tz c)))"
    unfolding f using v3d_table_inv[OF assms(3,4), of g "v3d_rows ls"] by blast
  show "length (fst (drm_card_step tbl g mem tz c)) \<le> 16"
    unfolding f using v3d_table_inv[OF assms(3,4), of g "v3d_rows ls"] by blast
qed

text \<open>
  Claim C7, as amended. Two successive probes of cards without a usage file, the first on
  a table \<open>tbl\<close> of at most 16 distinct queues (the empty table of a new sampler is one),
  each with a snapshot that has no usage yet; \<open>rs1\<close> are the rows of the first probe and
  \<open>rs\<close> the rows of both, in the order read. After each probe the table holds the first 16
  distinct queue names seen so far, in the order of their first appearance, and for each
  of them the \<^verbatim>\<open>(last_ts, last_rt)\<close> pair of its latest row; a queue beyond the sixteenth is
  not held. A row gets a utilisation exactly when its queue was held before the row with
  an older timestamp, and it is computed against the pair held then: for a queue of the
  first probe, against the pair of its row there. The usage of a probe is the maximum of
  the utilisations of its rows, and the card has a usage exactly when there is one. The
  utilisation is (runtime delta \<times> 100) / timestamp delta in double arithmetic when the
  runtime has not decreased. The table never exceeds 16 queues, over a whole call of
  \<^verbatim>\<open>read_gpu\<close> too.
\<close>

theorem v3d_card_usage:
  assumes "first_some (take 4 (usage_files c1)) = None" and "stats_file c1 = Some ls1"
    and "first_some (take 4 (usage_files c2)) = None" and "stats_file c2 = Some ls2"
    and "distinct (map queue tbl)" and "length tbl \<le> 16"
    and "usage g1 = 0" and "\<not> has_usage g1" and "usage g2 = 0" and "\<not> has_usage g2"
  shows "(let p1 = drm_card_step tbl g1 mem1 tz1 c1;
              p2 = drm_card_step (fst p1) g2 mem2 tz2 c2;
              rs1 = v3d_rows ls1;
              rs = v3d_rows ls1 @ v3d_rows ls2
          in map queue (fst p1) = tracked tbl rs1
           \<and> (\<forall>n. lookup_queue (fst p1) n = held tbl rs1 n)
           \<and> has_usage (snd p1) = (v3d_utils_from 0 tbl rs1 \<noteq> [])
           \<and> (has_usage (snd p1) \<longrightarrow> usage (snd p1) = Max (set (v3d_utils_from 0 tbl rs1)))
           \<and> map queue (fst p2) = tracked tbl rs
           \<and> (\<forall>n. lookup_queue (fst p2) n = held tbl rs n)
           \<and> has_usage (snd p2) = (v3d_utils_from (length rs1) tbl rs \<noteq> [])
           \<and> (has_usage (snd p2) \<longrightarrow>
                usage (snd p2) = Max (set (v3d_utils_from (length rs1) tbl rs)))
           \<and> length (fst p1) \<le> 16 \<and> length (fst p2) \<le> 16)
       \<and> (\<forall>e r. last_ts e < ts r \<and> last_rt e \<le> rt r \<longrightarrow>
             queue_usage e r = d_div (d_mul (rnd (real (unat (rt r) - unat (last_rt e)))) 100)
                                     (rnd (real (unat (ts r) - unat (last_ts e)))))
       \<and> (length (v3d_stats s) \<le> 16 \<longrightarrow> length (v3d_stats (fst (read_gpu s st mem w))) \<le> 16)"
proof -
  let ?p1 = "drm_card_step tbl g1 mem1 tz1 c1"
  let ?p2 = "drm_card_step (fst ?p1) g2 mem2 tz2 c2"
  let ?rs1 = "v3d_rows ls1"
  let ?rs = "v3d_rows ls1 @ v3d_rows ls2"
  note P1 = v3d_probe[OF assms(1,2,5,6,7,8), of mem1 tz1]
  note P2 = v3d_probe[OF assms(3,4) P1(6,7) assms(9,10), of mem2 tz2]
  have T1: "fst ?p1 = fst (foldl (\<lambda>st r. v3d_line st (Some r)) (tbl, g1) ?rs1)"
    by (rule P1(1))
  note A = v3d_after[OF assms(5,6), of g1 ?rs1 "v3d_rows ls2", folded T1]
  have a: "tracked (fst ?p1) (v3d_rows ls2) = tracked tbl ?rs"
    and b: "held (fst ?p1) (v3d_rows ls2) n = held tbl ?rs n" for n
    using A by blast+
  have c: "v3d_utils_from 0 (fst ?p1) (v3d_rows ls2) = v3d_utils_from (length ?rs1) tbl ?rs"
    unfolding T1 by (rule v3d_utils_after[OF assms(5,6)])
  have first: "map queue (fst ?p1) = tracked tbl ?rs1
           \<and> (\<forall>n. lookup_queue (fst ?p1) n = held tbl ?rs1 n)
           \<and> has_usage (snd ?p1) = (v3d_utils_from 0 tbl ?rs1 \<noteq> [])
           \<and> (has_usage (snd ?p1) \<longrightarrow> usage (snd ?p1) = Max (set (v3d_utils_from 0 tbl ?rs1)))"
    using P1(2,3,4,5) by blast
  have second: "map queue (fst ?p2) = tracked tbl ?rs
           \<and> (\<forall>n. lookup_queue (fst ?p2) n = held tbl ?rs n)
           \<and> has_usage (snd ?p2) = (v3d_utils_from (length ?rs1) tbl ?rs \<noteq> [])
           \<and> (has_usage (snd ?p2) \<longrightarrow>
                usage (snd ?p2) = Max (set (v3d_utils_from (length ?rs1) tbl ?rs)))"
    using P2(2,3,4,5) unfolding a b c by blast
  have len: "length (fst ?p1) \<le> 16 \<and> length (fst ?p2) \<le> 16"
    using P1(7) P2(7) by blast
  have formula: "\<forall>e r. last_ts e < ts r \<and> last_rt e \<le> rt r \<longrightarrow>
             queue_usage e r = d_div (d_mul (rnd (real (unat (rt r) - unat (last_rt e)))) 100)
                                     (rnd (real (unat (ts r) - unat (last_ts e))))"
    using queue_usage_no_wrap by blast
  have bound: "length (v3d_stats s) \<le> 16 \<longrightarrow> length (v3d_stats (fst (read_gpu s st mem w))) \<le> 16"
    using read_gpu_length by blast
  show ?thesis unfolding Let_def using first second len formula bound by blast
qed

lemmas v3d_eval = v3d_lines_def v3d_line_def queue_usage_def drm_card_step_def stats_file_def
  vendor_name_def hwmon_temp_def vram_def videocore_vram_def is_card_def v3d_card_def

lemmas v3d_spec_eval = tracked_def first_seen_def held_def lookup_queue_def util_at_def
  v3d_utils_from_def map_filter_simps upt_conv_Cons

lemma v3d_rows_eval:
  "v3d_rows v3d_lines1 = [\<lparr>q_name = ''bin'', ts = 1000000000, rt = 500000000\<rparr>,
                          \<lparr>q_name = ''render'', ts = 1000000000, rt = 100000000\<rparr>]"
  "v3d_rows v3d_lines2 = [\<lparr>q_name = ''bin'', ts = 2000000000, rt = 1000000000\<rparr>,
                          \<lparr>q_name = ''render'', ts = 2000000000, rt = 350000000\<rparr>]"
  by (simp_all add: v3d_lines1_def v3d_lines2_def)

lemma v3d_spec_first:
  "tracked [] (v3d_rows v3d_lines1) = [''bin'', ''render'']"
  "held [] (v3d_rows v3d_lines1) ''bin''
     = Some \<lparr>queue = ''bin'', last_ts = 1000000000, last_rt = 500000000\<rparr>"
  "held [] (v3d_rows v3d_lines1) ''render''
     = Some \<lparr>queue = ''render'', last_ts = 1000000000, last_rt = 100000000\<rparr>"
  "v3d_utils_from 0 [] (v3d_rows v3d_lines1) = []"
  by (simp_all add: v3d_rows_eval v3d_spec_eval)

lemma v3d_spec_second:
  "held [] (v3d_rows v3d_lines1 @ v3d_rows v3d_lines2) ''bin''
     = Some \<lparr>queue = ''bin'', last_ts = 2000000000, last_rt = 1000000000\<rparr>"
  "held [] (v3d_rows v3d_lines1 @ v3d_rows v3d_lines2) ''render''
     = Some \<lparr>queue = ''render'', last_ts = 2000000000, last_rt = 350000000\<rparr>"
  "v3d_utils_from (length (v3d_rows v3d_lines1)) [] (v3d_rows v3d_lines1 @ v3d_rows v3d_lines2)
     = [50, 25]"
  by (simp_all add: v3d_rows_eval v3d_spec_eval queue_usage_def dbl_eval)

theorem v3d_card_usage_witness:
  "v3d_stats sampler0 = []
   \<and> first_some (take 4 (usage_files (v3d_card v3d_lines1))) = None
   \<and> stats_file (v3d_card v3d_lines1) = Some v3d_lines1
   \<and> stats_file (v3d_card v3d_lines2) = Some v3d_lines2
   \<and> usage gpu_init = 0 \<and> \<not> has_usage gpu_init
   \<and> map queue (fst (drm_card_step [] gpu_init zero_mem None (v3d_card v3d_lines1)))
       = [''bin'', ''render'']
   \<and> lookup_queue (fst (drm_card_step [] gpu_init zero_mem None (v3d_card v3d_lines1))) ''bin''
       = Some \<lparr>queue = ''bin'', last_ts = 1000000000, last_rt = 500000000\<rparr>
   \<and> lookup_queue (fst (drm_card_step [] gpu_init zero_mem None (v3d_card v3d_lines1))) ''render''
       = Some \<lparr>queue = ''render'', last_ts = 1000000000, last_rt = 100000000\<rparr>
   \<and> \<not> has_usage (snd (drm_card_step [] gpu_init zero_mem None (v3d_card v3d_lines1)))
   \<and> has_usage (snd (drm_card_step
        (fst (drm_card_step [] gpu_init zero_mem None (v3d_card v3d_lines1)))
        gpu_init zero_mem None (v3d_card v3d_lines2)))
   \<and> usage (snd (drm_card_step
        (fst (drm_card_step [] gpu_init zero_mem None (v3d_card v3d_lines1)))
        gpu_init zero_mem None (v3d_card v3d_lines2))) = 50
   \<and> lookup_queue (fst (drm_card_step
        (fst (drm_card_step [] gpu_init zero_mem None (v3d_card v3d_lines1)))
        gpu_init zero_mem None (v3d_card v3d_lines2))) ''render''
       = Some \<lparr>queue = ''render'', last_ts = 2000000000, last_rt = 350000000\<rparr>"
proof -
  let ?p1 = "drm_card_step [] gpu_init zero_mem None (v3d_card v3d_lines1)"
  let ?p2 = "drm_card_step (fst ?p1) gpu_init zero_mem None (v3d_card v3d_lines2)"
  have s0: "v3d_stats sampler0 = []" by (simp add: sampler0_def sampler_create_def)
  have h1: "first_some (take 4 (usage_files (v3d_card ls))) = None" for ls
    by (simp add: v3d_card_def)
  have h2: "stats_file (v3d_card ls) = Some ls" for ls
    by (simp add: v3d_card_def stats_file_def)
  have h3: "distinct (map queue [])" and h4: "length ([] :: V3dStats list) \<le> 16" by simp_all
  have h5: "usage gpu_init = 0" and h6: "\<not> has_usage gpu_init" by (simp_all add: gpu_init_def)
  note th = v3d_card_usage[where ?mem1.0 = zero_mem and ?tz1.0 = None and ?mem2.0 = zero_mem
      and ?tz2.0 = None and s = sampler0 and st = gpu_static_init and mem = zero_mem
      and w = gpu_world_none, OF h1 h2 h1 h2 h3 h4 h5 h6 h5 h6, unfolded Let_def]
  have a: "map queue (fst ?p1) = [''bin'', ''render'']"
    using th v3d_spec_first(1) by simp
  have b: "lookup_queue (fst ?p1) ''bin''
      = Some \<lparr>queue = ''bin'', last_ts = 1000000000, last_rt = 500000000\<rparr>"
    using th v3d_spec_first(2) by simp
  have c: "lookup_queue (fst ?p1) ''render''
      = Some \<lparr>queue = ''render'', last_ts = 1000000000, last_rt = 100000000\<rparr>"
    using th v3d_spec_first(3) by simp
  have d: "\<not> has_usage (snd ?p1)" using th v3d_spec_first(4) by simp
  have e: "has_usage (snd ?p2)" using th v3d_spec_second(3) by simp
  have f: "usage (snd ?p2) = 50" using th e v3d_spec_second(3) by simp
  have g: "lookup_queue (fst ?p2) ''render''
      = Some \<lparr>queue = ''render'', last_ts = 2000000000, last_rt = 350000000\<rparr>"
    using th v3d_spec_second(2) by simp
  from s0 h1 h2 h5 h6 a b c d e f g show ?thesis by (simp only: simp_thms)
qed

lemma q17_lines1_eval: "fst q17_call1 = sampler0\<lparr>v3d_stats :=
    map (\<lambda>i. \<lparr>queue = ''q'' @ fmt_llu i, last_ts = 1000000000, last_rt = 500000000\<rparr>) [1..<17]\<rparr>
  \<and> last_gpu_read (fst (snd q17_call1)) = \<lparr>tv_sec = 100, tv_usec = 0\<rparr>"
  by (simp add: q17_call1_def q17_lines1_def gpu_eval v3d_eval world_eval sampler_create_def
      zero_mem_def str_eval Let_def upt_conv_Cons)


lemma q17_call2_eval: "v3d_stats (fst q17_call2) =
    map (\<lambda>i. \<lparr>queue = ''q'' @ fmt_llu i, last_ts = 2000000000, last_rt = 500000000\<rparr>) [1..<17]
  \<and> has_usage (snd (snd q17_call2)) \<and> usage (snd (snd q17_call2)) = 0"
  unfolding q17_call2_def
  by (simp add: q17_lines1_eval q17_lines2_def gpu_eval v3d_eval world_eval sampler_create_def
      zero_mem_def str_eval Let_def upt_conv_Cons dbl_eval)

text \<open>
  The claim as stated covers every queue row seen in two successive probes. With 17
  queues in \<^verbatim>\<open>gpu_stats\<close>, the first probe fills the table with \<^verbatim>\<open>q1\<close> to \<^verbatim>\<open>q16\<close> and drops
  \<^verbatim>\<open>q17\<close>. At the second probe, one second later, only \<^verbatim>\<open>q17\<close> has run, for half of the
  interval: its utilisation by the formula is 50, the sixteen others are 0, and the
  reported usage is 0; \<^verbatim>\<open>q17\<close> is still not in the table.
\<close>

theorem v3d_seventeenth_queue_ignored:
  "\<lparr>q_name = ''q17'', ts = 1000000000, rt = 500000000\<rparr> \<in> set (v3d_rows q17_lines1)
   \<and> \<lparr>q_name = ''q17'', ts = 2000000000, rt = 1000000000\<rparr> \<in> set (v3d_rows q17_lines2)
   \<and> queue_usage \<lparr>queue = ''q17'', last_ts = 1000000000, last_rt = 500000000\<rparr>
        \<lparr>q_name = ''q17'', ts = 2000000000, rt = 1000000000\<rparr> = 50
   \<and> has_usage (snd (snd q17_call2))
   \<and> usage (snd (snd q17_call2)) = 0
   \<and> length (v3d_stats (fst q17_call2)) = 16
   \<and> find_queue (v3d_stats (fst q17_call2)) ''q17'' = None"
  by (simp add: q17_call2_eval q17_lines1_def q17_lines2_def upt_conv_Cons str_eval
      queue_usage_def dbl_eval)

end
